theory Spec2Isabelle
  imports Main
begin

section \<open>Values shared by the whole program\<close>

text \<open>
  A Go \<^verbatim>\<open>error\<close> value is modelled by its message; a run-time panic (an index out of
  range) is a separate constructor, so that every way a function can stop is a value.
\<close>

datatype error = Error string | Panic string

text \<open>\<^verbatim>\<open>nostr.Tag\<close> is a slice of strings and \<^verbatim>\<open>nostr.Tags\<close> a slice of tags; the nil
  slice and the empty slice are both the empty list.\<close>

type_synonym Tag = "string list"
type_synonym Tags = "Tag list"

text \<open>Decimal rendering of an integer, as \<^verbatim>\<open>%v\<close> and \<^verbatim>\<open>%d\<close> print a Go \<^verbatim>\<open>int\<close>.\<close>

definition digit :: "nat \<Rightarrow> char" where
  "digit n = char_of (48 + n)"

function showNat :: "nat \<Rightarrow> string" where
  "showNat n = (if n < 10 then [digit n] else showNat (n div 10) @ [digit (n mod 10)])"
  by pat_completeness auto
termination
  by (relation "measure (\<lambda>n. n)") auto

declare showNat.simps [simp del]

definition showInt :: "int \<Rightarrow> string" where
  "showInt i = (if i < 0 then CHR ''-'' # showNat (nat (- i)) else showNat (nat i))"

definition subCommandName :: nat where
  "subCommandName = 1"

text \<open>Modelled from the spec: the constant \<^verbatim>\<open>indexTagName\<close> is used by
  \<^verbatim>\<open>checkTags\<close> but declared outside the files at hand; the data model says that
  position 0 of a tag is the tag name.\<close>

definition indexTagName :: nat where
  "indexTagName = 0"

section \<open>TagSchema: \<^verbatim>\<open>ChkTblMap\<close> and \<^verbatim>\<open>checkTags\<close>\<close>

type_synonym ChkTblMap = "int \<rightharpoonup> string list"

definition NewChkTblMap :: ChkTblMap where
  "NewChkTblMap = map_of
     [(1, [''content-warning'', ''client'', ''e'', ''emoji'', ''expiration'', ''p'', ''q'', ''r'', ''t'']),
      (6, [''e'', ''p'']),
      (10000, [''e'', ''p'', ''t'', ''word'']),
      (10001, [''e'']),
      (30315, [''d'', ''emoji'', ''expiration'', ''r''])]"

text \<open>Reading a Go map at a missing key gives the zero value, here the nil slice.\<close>

definition sliceToMap :: "ChkTblMap \<Rightarrow> int \<Rightarrow> string set" where
  "sliceToMap r kind = set (case r kind of None \<Rightarrow> [] | Some vs \<Rightarrow> vs)"

definition contains :: "ChkTblMap \<Rightarrow> int \<Rightarrow> string \<Rightarrow> bool" where
  "contains r kind target = (target \<in> sliceToMap r kind)"

text \<open>
  \<^verbatim>\<open>checkTags\<close> returns the lines it hands to \<^verbatim>\<open>log.Printf\<close> together with its
  result: \<open>None\<close> is Go's \<^verbatim>\<open>nil\<close> error. The source reads \<^verbatim>\<open>tg[indexTagName]\<close>
  with no length check, which panics on a tag that is too short.
\<close>

fun checkTags_loop :: "ChkTblMap \<Rightarrow> int \<Rightarrow> Tags \<Rightarrow> string list \<times> error option" where
  "checkTags_loop list kind [] = ([], None)"
| "checkTags_loop list kind (tg # tgs) =
     (if length tg \<le> indexTagName
      then ([], Some (Panic ''runtime error: index out of range [0] with length 0''))
      else if \<not> contains list kind (tg ! indexTagName)
      then ([''kind : '' @ showInt kind @ '', tagName : '' @ tg ! indexTagName @ [CHR 0x0A]],
            Some (Error ''Inclusion of invalid tag in specified kind''))
      else checkTags_loop list kind tgs)"

definition checkTags :: "int \<Rightarrow> Tags \<Rightarrow> string list \<times> error option" where
  "checkTags kind tgs = checkTags_loop NewChkTblMap kind tgs"

section \<open>SubcommandRegistry: \<^verbatim>\<open>SubCmdKindTbl\<close> and \<^verbatim>\<open>ConvArgsTagsTbl\<close>\<close>

type_synonym SubCmdKindTbl = "string \<rightharpoonup> int"

definition NewSubCmdKindTbl :: SubCmdKindTbl where
  "NewSubCmdKindTbl = map_of [(''pubMessage'', 1), (''pubMessageTo'', 1)]"

definition SubCmdKindTbl_hasSubcommand :: "SubCmdKindTbl \<Rightarrow> string list \<Rightarrow> error option" where
  "SubCmdKindTbl_hasSubcommand r args =
     (if subCommandName \<ge> length args
      then Some (Error (''index '' @ showInt (int subCommandName) @ '' out of range in args''))
      else let cmd = args ! subCommandName in
           if r cmd = None then Some (Error (''Not supported subcommand '' @ cmd)) else None)"

definition SubCmdKindTbl_get :: "SubCmdKindTbl \<Rightarrow> string list \<Rightarrow> error + int" where
  "SubCmdKindTbl_get r args =
     (case SubCmdKindTbl_hasSubcommand r args of
        Some err \<Rightarrow> Inl err
      | None \<Rightarrow> Inr (case r (args ! subCommandName) of None \<Rightarrow> 0 | Some k \<Rightarrow> k))"

type_synonym ConvArgsTagsTbl = "string \<rightharpoonup> (nat \<rightharpoonup> string list)"

definition NewConvArgsTagsTbl :: ConvArgsTagsTbl where
  "NewConvArgsTagsTbl = map_of
     [(''pubMessage'', map_of [(3, [''content-warning''])]),
      (''pubMessageTo'', map_of [(3, [''p''])])]"

definition ConvArgsTagsTbl_hasSubcommand :: "ConvArgsTagsTbl \<Rightarrow> string list \<Rightarrow> error option" where
  "ConvArgsTagsTbl_hasSubcommand r args =
     (if subCommandName \<ge> length args
      then Some (Error (''index '' @ showInt (int subCommandName) @ '' out of range in args''))
      else let cmd = args ! subCommandName in
           if r cmd = None then Some (Error (''Not supported subcommand '' @ cmd)) else None)"

section \<open>EventBuilder: \<^verbatim>\<open>buildJson\<close> and \<^verbatim>\<open>addTags\<close>\<close>

record RawArg =
  Kind :: int
  Content :: string
  Tags :: Tags

text \<open>The binding read by \<^verbatim>\<open>list[args[subCommandName]][index]\<close>: a missing key of
  either map yields the nil slice.\<close>

definition binding :: "ConvArgsTagsTbl \<Rightarrow> string \<Rightarrow> nat \<Rightarrow> string list" where
  "binding list cmd index =
     (case list cmd of None \<Rightarrow> [] | Some m \<Rightarrow> (case m index of None \<Rightarrow> [] | Some ns \<Rightarrow> ns))"

text \<open>\<^verbatim>\<open>addTags\<close> appends the tag to \<^verbatim>\<open>*tgs\<close>; the model returns the new tag list.
  Element 0 of the binding is read with no length check.\<close>

definition addTags :: "string list \<Rightarrow> nat \<Rightarrow> Tags \<Rightarrow> error + Tags" where
  "addTags args index tgs =
     (let list = NewConvArgsTagsTbl in
      case ConvArgsTagsTbl_hasSubcommand list args of
        Some err \<Rightarrow> Inl err
      | None \<Rightarrow>
          (let names = binding list (args ! subCommandName) index in
           if names = []
           then Inl (Panic ''runtime error: index out of range [0] with length 0'')
           else if length args \<le> index
           then Inl (Panic ''runtime error: index out of range'')
           else Inr (tgs @ [[names ! 0, args ! index]])))"

text \<open>The body of the \<^verbatim>\<open>for i := range args\<close> loop, over the indices still to visit.\<close>

fun buildJson_loop :: "string list \<Rightarrow> nat list \<Rightarrow> RawArg \<Rightarrow> error + RawArg" where
  "buildJson_loop args [] ret = Inr ret"
| "buildJson_loop args (i # is) ret =
     (if i = 0 then buildJson_loop args is ret
      else if i = 1 then
        (case SubCmdKindTbl_get NewSubCmdKindTbl args of
           Inl err \<Rightarrow> Inl err
         | Inr tmpKind \<Rightarrow> buildJson_loop args is (ret\<lparr>Kind := tmpKind\<rparr>))
      else if i = 2 then buildJson_loop args is (ret\<lparr>Content := args ! i\<rparr>)
      else
        (case addTags args i (Tags ret) of
           Inl err \<Rightarrow> Inl err
         | Inr tgs \<Rightarrow> buildJson_loop args is (ret\<lparr>Tags := tgs\<rparr>)))"

text \<open>The value \<^verbatim>\<open>ret\<close> that \<^verbatim>\<open>buildJson\<close> hands to \<^verbatim>\<open>json.Marshal\<close>.\<close>

definition buildJson_ret :: "string list \<Rightarrow> error + RawArg" where
  "buildJson_ret args =
     (case ConvArgsTagsTbl_hasSubcommand NewConvArgsTagsTbl args of
        Some err \<Rightarrow> Inl err
      | None \<Rightarrow> buildJson_loop args [0 ..< length args] \<lparr>Kind = 0, Content = [], Tags = []\<rparr>)"

text \<open>\<^verbatim>\<open>json.Marshal\<close> belongs to the standard library and is a parameter.\<close>

definition buildJson :: "(RawArg \<Rightarrow> error + string) \<Rightarrow> string list \<Rightarrow> error + string" where
  "buildJson jsonMarshal args =
     (case buildJson_ret args of
        Inl err \<Rightarrow> Inl err
      | Inr ret \<Rightarrow> (case jsonMarshal ret of Inl err \<Rightarrow> Inl err | Inr strJson \<Rightarrow> Inr strJson))"

text \<open>
  The calls that \<^verbatim>\<open>buildJson\<close> makes, in order, down to the functions of this program
  that it reaches (\<^verbatim>\<open>SubCmdKindTbl.get\<close> calls its own \<^verbatim>\<open>hasSubcommand\<close>, \<^verbatim>\<open>addTags\<close>
  builds the table again and checks the subcommand again). \<open>Call_checkTags\<close> stands for
  a call of \<^verbatim>\<open>checkTags\<close>. The calls follow the control flow of \<^verbatim>\<open>buildJson_loop\<close>: an
  error return ends them.
\<close>

datatype call =
    Call_NewConvArgsTagsTbl
  | Call_NewSubCmdKindTbl
  | Call_ConvArgsTagsTbl_hasSubcommand "string list"
  | Call_SubCmdKindTbl_get "string list"
  | Call_SubCmdKindTbl_hasSubcommand "string list"
  | Call_addTags "string list" nat
  | Call_json_Marshal RawArg
  | Call_checkTags int Tags

definition SubCmdKindTbl_get_calls :: "string list \<Rightarrow> call list" where
  "SubCmdKindTbl_get_calls args =
     [Call_SubCmdKindTbl_get args, Call_SubCmdKindTbl_hasSubcommand args]"

definition addTags_calls :: "string list \<Rightarrow> nat \<Rightarrow> call list" where
  "addTags_calls args index =
     [Call_addTags args index, Call_NewConvArgsTagsTbl, Call_ConvArgsTagsTbl_hasSubcommand args]"

fun buildJson_loop_calls :: "string list \<Rightarrow> nat list \<Rightarrow> RawArg \<Rightarrow> call list" where
  "buildJson_loop_calls args [] ret = []"
| "buildJson_loop_calls args (i # is) ret =
     (if i = 0 then buildJson_loop_calls args is ret
      else if i = 1 then
        SubCmdKindTbl_get_calls args @
        (case SubCmdKindTbl_get NewSubCmdKindTbl args of
           Inl err \<Rightarrow> []
         | Inr tmpKind \<Rightarrow> buildJson_loop_calls args is (ret\<lparr>Kind := tmpKind\<rparr>))
      else if i = 2 then buildJson_loop_calls args is (ret\<lparr>Content := args ! i\<rparr>)
      else
        addTags_calls args i @
        (case addTags args i (Tags ret) of
           Inl err \<Rightarrow> []
         | Inr tgs \<Rightarrow> buildJson_loop_calls args is (ret\<lparr>Tags := tgs\<rparr>)))"

definition buildJson_calls :: "string list \<Rightarrow> call list" where
  "buildJson_calls args =
     [Call_NewConvArgsTagsTbl, Call_NewSubCmdKindTbl, Call_ConvArgsTagsTbl_hasSubcommand args] @
     (case ConvArgsTagsTbl_hasSubcommand NewConvArgsTagsTbl args of
        Some err \<Rightarrow> []
      | None \<Rightarrow>
          buildJson_loop_calls args [0 ..< length args] \<lparr>Kind = 0, Content = [], Tags = []\<rparr> @
          (case buildJson_ret args of Inl err \<Rightarrow> [] | Inr ret \<Rightarrow> [Call_json_Marshal ret]))"

section \<open>The publish-message command\<close>

text \<open>
  \<^verbatim>\<open>nostr.Event\<close> of the protocol library. The fields \<^verbatim>\<open>Kind\<close>, \<^verbatim>\<open>Tags\<close> and
  \<^verbatim>\<open>Content\<close> carry the prefix \<open>Ev\<close>, since \<^verbatim>\<open>RawArg\<close> has fields of the same names.
\<close>

record Event =
  ID :: string
  PubKey :: string
  CreatedAt :: int
  EvKind :: int
  EvTags :: Tags
  EvContent :: string
  Sig :: string

definition KindTextNote :: int where
  "KindTextNote = 1"

text \<open>
  What the command does to the outside, in the order it does it: text written to the
  standard output, a line handed to \<^verbatim>\<open>log.Fatal\<close>, a directory created, an event handed
  to the signer, a connection attempt to a relay, and an event submitted to a relay.
\<close>

datatype effect =
    Stdout string
  | LogFatal string
  | Mkdir string
  | SignEvent Event string
  | RelayConnect string
  | Publish string Event

text \<open>
  The answers of the operating system and of the libraries during one run. An error
  answer is its message. The relay answers are indexed by the iteration of the publish
  loop, so that the same URL may be answered differently at different attempts.
  \<open>json_Unmarshal_keys\<close> decodes the relay file into \<^verbatim>\<open>map[string]RwFlag\<close> and lists the
  keys in the order in which \<^verbatim>\<open>range\<close> yields them, which Go leaves to the run time.
  \<open>nostr_Sign\<close> answers with the event identifier and the signature (the source:
  ``calling Sign sets the event ID field and the event Sig field''), or with \<open>None\<close>
  when signing fails; the source ignores that failure.
\<close>

record world =
  os_Getenv_HOME :: string
  os_Stat :: "string \<Rightarrow> string option"
  os_Mkdir :: "string \<Rightarrow> string option"
  ioutil_ReadFile :: "string \<Rightarrow> string + string"
  json_Unmarshal_keys :: "string \<Rightarrow> string + string list"
  nostr_GetPublicKey :: "string \<Rightarrow> string + string"
  nostr_Now :: int
  nostr_Sign :: "Event \<Rightarrow> string \<Rightarrow> (string \<times> string) option"
  nostr_RelayConnect :: "nat \<Rightarrow> string \<Rightarrow> string option"
  nostr_Publish :: "nat \<Rightarrow> string \<Rightarrow> Event \<Rightarrow> string option"

definition secretDir :: string where
  "secretDir = ''/.nostk''"

definition hsec :: string where
  "hsec = ''.hsec''"

definition relays :: string where
  "relays = ''relays.json''"

definition newline :: char where
  "newline = CHR 0x0A"

text \<open>\<^verbatim>\<open>strings.Split(s, "\n")\<close> for a one-character separator: one more piece than
  there are separators.\<close>

fun split :: "char \<Rightarrow> string \<Rightarrow> string list" where
  "split sep [] = [[]]"
| "split sep (c # cs) =
     (if c = sep then [] # split sep cs
      else (case split sep cs of [] \<Rightarrow> [[c]] | r # rs \<Rightarrow> (c # r) # rs))"

definition getDir :: "world \<Rightarrow> effect list \<times> (error + string)" where
  "getDir w =
     (let home = os_Getenv_HOME w in
      if home = [] then ([], Inl (Error ''Not set HOME environmental variables''))
      else let home = home @ secretDir in
        (case os_Stat w home of
           None \<Rightarrow> ([], Inr home)
         | Some _ \<Rightarrow>
             (case os_Mkdir w home of
                Some err \<Rightarrow> ([Mkdir home], Inl (Error err))
              | None \<Rightarrow> ([Mkdir home], Inr home))))"

text \<open>The error of \<^verbatim>\<open>ioutil.ReadFile\<close> is not looked at in \<^verbatim>\<open>readPrivateKey\<close>: the
  bytes are then empty. \<^verbatim>\<open>k[0]\<close> is read with no length check.\<close>

definition readPrivateKey :: "world \<Rightarrow> effect list \<times> (error + string)" where
  "readPrivateKey w =
     (case getDir w of
        (es, Inl err) \<Rightarrow> (es, Inl err)
      | (es, Inr dir) \<Rightarrow>
          (let path = dir @ ''/'' @ hsec in
           case os_Stat w path of
             Some err \<Rightarrow> (es, Inl (Error err))
           | None \<Rightarrow>
               (let b = (case ioutil_ReadFile w path of Inl _ \<Rightarrow> [] | Inr b \<Rightarrow> b);
                    rs = split newline b;
                    k = filter (\<lambda>r. r \<noteq> []) rs
                in if k = []
                   then (es, Inl (Panic ''runtime error: index out of range [0] with length 0''))
                   else (es, Inr (k ! 0)))))"

definition readRelayList :: "world \<Rightarrow> effect list \<times> (error + string)" where
  "readRelayList w =
     (case getDir w of
        (es, Inl err) \<Rightarrow> (es, Inl err)
      | (es, Inr d) \<Rightarrow>
          (let path = d @ ''/'' @ relays in
           case os_Stat w path of
             Some err \<Rightarrow> (es, Inl (Error err))
           | None \<Rightarrow>
               (case ioutil_ReadFile w path of
                  Inl err \<Rightarrow> (es, Inl (Error err))
                | Inr b \<Rightarrow> (es, Inr (filter (\<lambda>c. c \<noteq> newline) b)))))"

text \<open>\<^verbatim>\<open>getRelayList\<close> appends the keys to \<^verbatim>\<open>*rl\<close>; the model returns the new list.\<close>

definition getRelayList :: "world \<Rightarrow> string list \<Rightarrow> effect list \<times> (error + string list)" where
  "getRelayList w rl =
     (case readRelayList w of
        (es, Inl err) \<Rightarrow> (es, Inl err)
      | (es, Inr b) \<Rightarrow>
          (case json_Unmarshal_keys w b of
             Inl err \<Rightarrow> (es, Inl (Error err))
           | Inr keys \<Rightarrow> (es, Inr (rl @ keys))))"

text \<open>
  The loop \<^verbatim>\<open>for _, url := range rl\<close> of \<^verbatim>\<open>publishMessage\<close>; \<open>n\<close> counts the iterations.
  Each of the two \<^verbatim>\<open>continue\<close> statements and the end of the body go on with the rest of
  the list.
\<close>

fun publishLoop :: "world \<Rightarrow> Event \<Rightarrow> nat \<Rightarrow> string list \<Rightarrow> effect list" where
  "publishLoop w ev n [] = []"
| "publishLoop w ev n (url # rl) =
     (case nostr_RelayConnect w n url of
        Some err \<Rightarrow>
          [RelayConnect url, Stdout (err @ [newline])] @ publishLoop w ev (Suc n) rl
      | None \<Rightarrow>
          (case nostr_Publish w n url ev of
             Some err \<Rightarrow>
               [RelayConnect url, Publish url ev, Stdout (err @ [newline])]
                 @ publishLoop w ev (Suc n) rl
           | None \<Rightarrow>
               [RelayConnect url, Publish url ev, Stdout (''published to '' @ url @ [newline])]
                 @ publishLoop w ev (Suc n) rl))"

text \<open>A returned error is followed by the line the caller prints; a panic unwinds
  through the caller, which prints nothing.\<close>

definition failWith :: "effect list \<Rightarrow> string \<Rightarrow> error \<Rightarrow> effect list \<times> error option" where
  "failWith es line err =
     (case err of
        Panic m \<Rightarrow> (es, Some err)
      | Error m \<Rightarrow> (es @ [Stdout (line @ [newline])], Some err))"

definition publishMessage :: "world \<Rightarrow> string \<Rightarrow> effect list \<times> error option" where
  "publishMessage w s =
     (if length s < 1
      then ([Stdout (''Nothing text message.'' @ [newline])], Some (Error ''Not set text message''))
      else
        (case readPrivateKey w of
           (es1, Inl err) \<Rightarrow> failWith es1 ''Nothing key pair. Make key pair.'' err
         | (es1, Inr sk) \<Rightarrow>
             (case nostr_GetPublicKey w sk of
                Inl err \<Rightarrow> (es1, Some (Error err))
              | Inr pk \<Rightarrow>
                  (case getRelayList w [] of
                     (es2, Inl err) \<Rightarrow>
                       failWith (es1 @ es2) ''Nothing relay list. Make a relay list.'' err
                   | (es2, Inr rl) \<Rightarrow>
                       (let ev = \<lparr>ID = [], PubKey = pk, CreatedAt = nostr_Now w,
                                  EvKind = KindTextNote, EvTags = [], EvContent = s, Sig = []\<rparr>;
                            signed = (case nostr_Sign w ev sk of
                                        None \<Rightarrow> ev
                                      | Some (i, sg) \<Rightarrow> ev\<lparr>ID := i, Sig := sg\<rparr>)
                        in (es1 @ es2 @ [SignEvent ev sk] @ publishLoop w signed 0 rl, None))))))"

text \<open>
  \<^verbatim>\<open>main\<close>. \<^verbatim>\<open>log.Fatal\<close> writes the error and leaves with status 1; a panic leaves
  with status 2. The functions behind the seven other subcommands are outside the
  model: \<open>others\<close> gives what each of them does and returns.
\<close>

datatype exit = Returned | Exited nat

definition dispHelp :: "effect list" where
  "dispHelp = map (\<lambda>line. Stdout (line @ [newline]))
     [''Usage :'' @ [newline] @ ''  nostk <sub-command> [param...]'',
      ''    sub-command :'',
      ''        init : Initializing the nostk environment'',
      ''        genkey : create Prive Key and Public Key'',
      ''        lsRelay : Show relay list'',
      ''        editRelays : edit relay list.'',
      ''        pubRelays : Publish relay list.'',
      ''        editProfile : Edit your profile.'',
      ''        pubProfile: Publish your profile.'',
      ''        pubMessage <text message>: Publish message to relays.'']"

definition fatal :: "effect list \<times> error option \<Rightarrow> effect list \<times> exit" where
  "fatal r =
     (case r of
        (es, None) \<Rightarrow> (es, Returned)
      | (es, Some (Error m)) \<Rightarrow> (es @ [LogFatal m], Exited 1)
      | (es, Some (Panic m)) \<Rightarrow> (es, Exited 2))"

definition main ::
    "world \<Rightarrow> (string \<Rightarrow> effect list \<times> error option) \<Rightarrow> string list \<Rightarrow> effect list \<times> exit" where
  "main w others osArgs =
     (if length osArgs < 2 then (dispHelp, Exited 0)
      else let cmd = osArgs ! 1 in
        if cmd = ''help'' \<or> cmd = ''--help'' \<or> cmd = ''-h'' then (dispHelp, Returned)
        else if cmd \<in> set [''init'', ''genkey'', ''lsRelays'', ''editRelays'', ''editProfile'',
                             ''pubProfile'', ''pubRelays'']
        then fatal (others cmd)
        else if cmd = ''pubMessage'' then
          (if length osArgs < 3
           then ([Stdout (''Nothing text message.'' @ [newline]),
                  LogFatal ''Not set text message''], Exited 1)
           else fatal (publishMessage w (osArgs ! 2)))
        else ([], Returned))"

section \<open>ContentScanner: the regular expressions of the source\<close>

text \<open>
  A Go string is a sequence of bytes; the \<^verbatim>\<open>regexp\<close> package reads it as UTF-8, one code
  point (rune) at a time, and an ill-formed byte reads as the rune \<^verbatim>\<open>U+FFFD\<close> of width 1.
  \<open>decodeRune\<close> is \<^verbatim>\<open>utf8.DecodeRuneInString\<close>: the rune at the head of the string and the
  number of bytes it takes.
\<close>

definition byte :: "char \<Rightarrow> nat" where
  "byte c = of_char c"

definition RuneError :: nat where
  "RuneError = 0xFFFD"

definition cont :: "char \<Rightarrow> bool" where
  "cont c = (0x80 \<le> byte c \<and> byte c \<le> 0xBF)"

definition acceptLo :: "nat \<Rightarrow> nat" where
  "acceptLo x = (if x = 0xE0 then 0xA0 else if x = 0xF0 then 0x90 else 0x80)"

definition acceptHi :: "nat \<Rightarrow> nat" where
  "acceptHi x = (if x = 0xED then 0x9F else if x = 0xF4 then 0x8F else 0xBF)"

fun decodeRune :: "string \<Rightarrow> nat \<times> nat" where
  "decodeRune [] = (RuneError, 0)"
| "decodeRune (c # cs) =
     (let x = byte c in
      if x < 0x80 then (x, 1)
      else if x < 0xC2 \<or> 0xF4 < x then (RuneError, 1)
      else
        (case cs of
           [] \<Rightarrow> (RuneError, 1)
         | s1 # cs1 \<Rightarrow>
             if byte s1 < acceptLo x \<or> acceptHi x < byte s1 then (RuneError, 1)
             else if x < 0xE0 then ((x mod 0x20) * 0x40 + byte s1 mod 0x40, 2)
             else
               (case cs1 of
                  [] \<Rightarrow> (RuneError, 1)
                | s2 # cs2 \<Rightarrow>
                    if \<not> cont s2 then (RuneError, 1)
                    else if x < 0xF0
                    then ((x mod 0x10) * 0x1000 + (byte s1 mod 0x40) * 0x40 + byte s2 mod 0x40, 3)
                    else
                      (case cs2 of
                         [] \<Rightarrow> (RuneError, 1)
                       | s3 # cs3 \<Rightarrow>
                           if \<not> cont s3 then (RuneError, 1)
                           else ((x mod 0x08) * 0x40000 + (byte s1 mod 0x40) * 0x1000
                                   + (byte s2 mod 0x40) * 0x40 + byte s3 mod 0x40, 4)))))"

declare decodeRune.simps [simp del]

text \<open>
  The part of the RE2 syntax that the patterns of the source use. A character class is
  a list of single runes, ranges and the Perl class \<^verbatim>\<open>\s\<close>, possibly negated;
  \<open>Bol\<close> is \<^verbatim>\<open>^\<close> (without the multi-line flag: the beginning of the text);
  groups do not matter to \<^verbatim>\<open>FindAllString\<close> and \<^verbatim>\<open>ReplaceAllString\<close> and are left out.
\<close>

datatype item = Single nat | Range nat nat | PerlSpace

datatype re =
    Bol
  | Cls bool "item list"
  | Seq re re
  | Alt re re
  | Star re
  | Plus re
  | Repeat nat re

fun inItem :: "nat \<Rightarrow> item \<Rightarrow> bool" where
  "inItem r (Single c) = (r = c)"
| "inItem r (Range lo hi) = (lo \<le> r \<and> r \<le> hi)"
| "inItem r PerlSpace = (r = 9 \<or> r = 10 \<or> r = 12 \<or> r = 13 \<or> r = 32)"

definition inClass :: "bool \<Rightarrow> item list \<Rightarrow> nat \<Rightarrow> bool" where
  "inClass negated items r = (list_ex (inItem r) items \<noteq> negated)"

fun rsize :: "re \<Rightarrow> nat" where
  "rsize Bol = 1"
| "rsize (Cls negated items) = 1"
| "rsize (Seq r1 r2) = rsize r1 + rsize r2 + 1"
| "rsize (Alt r1 r2) = rsize r1 + rsize r2 + 1"
| "rsize (Star r) = rsize r + 1"
| "rsize (Plus r) = rsize r + 2"
| "rsize (Repeat n r) = rsize r + n + 1"

text \<open>
  The matches of a pattern at the head of a string, as the strings left over, in the
  order of preference of a backtracking matcher (Go's leftmost-first rule): the left
  branch of an alternation before the right one, a longer repetition before a shorter
  one. The flag says whether the head of the string is the beginning of the text.
\<close>

function matchRe :: "re \<Rightarrow> bool \<Rightarrow> string \<Rightarrow> string list" where
  "matchRe Bol b s = (if b then [s] else [])"
| "matchRe (Cls negated items) b s =
     (if s = [] then []
      else if inClass negated items (fst (decodeRune s)) then [drop (snd (decodeRune s)) s]
      else [])"
| "matchRe (Seq r1 r2) b s =
     concat (map (\<lambda>s'. matchRe r2 (b \<and> length s' = length s) s') (matchRe r1 b s))"
| "matchRe (Alt r1 r2) b s = matchRe r1 b s @ matchRe r2 b s"
| "matchRe (Star r) b s =
     concat (map (\<lambda>s'. matchRe (Star r) False s')
                 (filter (\<lambda>s'. length s' < length s) (matchRe r b s))) @ [s]"
| "matchRe (Plus r) b s =
     concat (map (\<lambda>s'. matchRe (Star r) (b \<and> length s' = length s) s') (matchRe r b s))"
| "matchRe (Repeat 0 r) b s = [s]"
| "matchRe (Repeat (Suc n) r) b s =
     concat (map (\<lambda>s'. matchRe (Repeat n r) (b \<and> length s' = length s) s') (matchRe r b s))"
  by pat_completeness auto
termination
  by (relation "measures [\<lambda>(r, b, s). rsize r, \<lambda>(r, b, s). length s]") auto

declare matchRe.simps [simp del]

text \<open>
  \<^verbatim>\<open>FindAllString(s, -1)\<close>: the successive leftmost matches, none overlapping an earlier
  one. The search looks for a match at the head of the string and otherwise moves on by
  one rune. After a match that is not empty it goes on where the match ended; an empty
  match is dropped when the match before it ended at the same place, and the search
  moves on by one rune. The flags say whether the head of the string is the beginning of
  the text and whether the match before ended here.
\<close>

function findAll :: "re \<Rightarrow> bool \<Rightarrow> bool \<Rightarrow> string \<Rightarrow> string list" where
  "findAll r b adj s =
     (case matchRe r b s of
        [] \<Rightarrow> (if s = [] then [] else findAll r False False (drop (snd (decodeRune s)) s))
      | s' # alternatives \<Rightarrow>
          if length s' < length s
          then take (length s - length s') s # findAll r False True s'
          else (if adj then [] else [[]])
                 @ (if s = [] then [] else findAll r False False (drop (snd (decodeRune s)) s)))"
  by pat_completeness auto
termination
proof -
  have "0 < snd (decodeRune s)" if "s \<noteq> []" for s
    using that by (cases s) (auto simp: decodeRune.simps Let_def split: list.splits)
  then have w: "length s - snd (decodeRune s) < length s" if "s \<noteq> []" for s
    using that by (simp add: Suc_leI)
  show ?thesis
    by (relation "measure (\<lambda>(r, b, adj, s). length s)") (auto simp: w)
qed

declare findAll.simps [simp del]

definition FindAllString :: "re \<Rightarrow> string \<Rightarrow> string list" where
  "FindAllString r s = findAll r True False s"

text \<open>\<^verbatim>\<open>MatchString\<close>: whether the pattern matches anywhere in the string.\<close>

function matchAnywhere :: "re \<Rightarrow> bool \<Rightarrow> string \<Rightarrow> bool" where
  "matchAnywhere r b s =
     (if matchRe r b s \<noteq> [] then True
      else if s = [] then False
      else matchAnywhere r False (drop (snd (decodeRune s)) s))"
  by pat_completeness auto
termination
proof -
  have "0 < snd (decodeRune s)" if "s \<noteq> []" for s
    using that by (cases s) (auto simp: decodeRune.simps Let_def split: list.splits)
  then have w: "length s - snd (decodeRune s) < length s" if "s \<noteq> []" for s
    using that by (simp add: Suc_leI)
  show ?thesis
    by (relation "measure (\<lambda>(r, b, s). length s)") (auto simp: w)
qed

declare matchAnywhere.simps [simp del]

definition MatchString :: "re \<Rightarrow> string \<Rightarrow> bool" where
  "MatchString r s = matchAnywhere r True s"

text \<open>
  \<^verbatim>\<open>ReplaceAllString(src, repl)\<close> for a replacement text without \<^verbatim>\<open>$\<close>: the text
  between the matches is kept, each match is replaced, and the replacement is left out
  for an empty match right after another match.
\<close>

function replaceAll :: "re \<Rightarrow> string \<Rightarrow> bool \<Rightarrow> bool \<Rightarrow> string \<Rightarrow> string" where
  "replaceAll r repl b adj s =
     (case matchRe r b s of
        [] \<Rightarrow>
          (if s = [] then []
           else take (snd (decodeRune s)) s
                  @ replaceAll r repl False False (drop (snd (decodeRune s)) s))
      | s' # alternatives \<Rightarrow>
          if length s' < length s
          then repl @ replaceAll r repl False True s'
          else (if adj then [] else repl)
                 @ (if s = [] then []
                    else take (snd (decodeRune s)) s
                           @ replaceAll r repl False False (drop (snd (decodeRune s)) s)))"
  by pat_completeness auto
termination
proof -
  have "0 < snd (decodeRune s)" if "s \<noteq> []" for s
    using that by (cases s) (auto simp: decodeRune.simps Let_def split: list.splits)
  then have w: "length s - snd (decodeRune s) < length s" if "s \<noteq> []" for s
    using that by (simp add: Suc_leI)
  show ?thesis
    by (relation "measure (\<lambda>(r, repl, b, adj, s). length s)") (auto simp: w)
qed

declare replaceAll.simps [simp del]

definition ReplaceAllString :: "re \<Rightarrow> string \<Rightarrow> string \<Rightarrow> string" where
  "ReplaceAllString r src repl = replaceAll r repl True False src"

text \<open>A literal text, and the patterns of the source.\<close>

fun lit :: "string \<Rightarrow> re" where
  "lit [] = Repeat 0 Bol"
| "lit [c] = Cls False [Single (byte c)]"
| "lit (c # cs) = Seq (Cls False [Single (byte c)]) (lit cs)"

definition alnum :: "item list" where
  "alnum = [Range (byte CHR ''a'') (byte CHR ''z''), Range (byte CHR ''A'') (byte CHR ''Z''),
            Range (byte CHR ''0'') (byte CHR ''9'')]"

text \<open>The three hash signs: \<^verbatim>\<open>#\<close>, \<^verbatim>\<open>U+FE5F\<close> (small number sign) and \<^verbatim>\<open>U+FF03\<close>
  (fullwidth number sign).\<close>

definition hashSigns :: "item list" where
  "hashSigns = [Single (byte CHR ''#''), Single 0xFE5F, Single 0xFF03]"

definition startOrSpace :: re where
  "startOrSpace = Alt Bol (Cls False [PerlSpace])"

text \<open>\<^verbatim>\<open>nsec1[a-zA-Z0-9]{58}\<close> and \<^verbatim>\<open>nsec1\<close>\<close>

definition nsecPattern :: re where
  "nsecPattern = Seq (lit ''nsec1'') (Repeat 58 (Cls False alnum))"

definition nsec1Pattern :: re where
  "nsec1Pattern = lit ''nsec1''"

text \<open>\<^verbatim>\<open>(?:^|\s)([#..][^#..]\S*[#..]\S*)\<close>, the dots standing for the two other hash signs\<close>

definition parsignPattern :: re where
  "parsignPattern =
     Seq startOrSpace
       (Seq (Cls False hashSigns)
         (Seq (Cls True hashSigns)
           (Seq (Star (Cls True [PerlSpace]))
             (Seq (Cls False hashSigns) (Star (Cls True [PerlSpace]))))))"

text \<open>\<^verbatim>\<open>(?:^|\s)([#..][^#\s..]+[^\s|$])\<close>\<close>

definition hashTagPattern :: re where
  "hashTagPattern =
     Seq startOrSpace
       (Seq (Cls False hashSigns)
         (Seq (Plus (Cls True (Single (byte CHR ''#'') # PerlSpace # [Single 0xFE5F, Single 0xFF03])))
              (Cls True [PerlSpace, Single (byte CHR ''|''), Single (byte CHR ''$'')])))"

text \<open>\<^verbatim>\<open>[\s..#]\<close>\<close>

definition stripPattern :: re where
  "stripPattern = Cls False [PerlSpace, Single 0xFE5F, Single 0xFF03, Single (byte CHR ''#'')]"

text \<open>The compilation of a constant, well-formed pattern never fails, so the error that
  \<^verbatim>\<open>excludeHashtagsParsign\<close> can return is always \<^verbatim>\<open>nil\<close>.\<close>

definition excludeHashtagsParsign :: "string \<Rightarrow> error + string" where
  "excludeHashtagsParsign src = Inr (ReplaceAllString parsignPattern src [])"

text \<open>Modelled from the spec: the type \<^verbatim>\<open>ExTag\<close> and its methods \<^verbatim>\<open>addTagName\<close>,
  \<^verbatim>\<open>addTagValue\<close> and \<^verbatim>\<open>getNostrTag\<close> are declared outside the files at hand. A tag is
  an ordered sequence of strings, the name at position 0 and the values after it; each
  match becomes a \<^verbatim>\<open>t\<close> tag whose value is the stripped token.\<close>

record ExTag =
  tagName :: string
  tagValues :: "string list"

definition addTagName :: "ExTag \<Rightarrow> string \<Rightarrow> ExTag" where
  "addTagName t n = t\<lparr>tagName := n\<rparr>"

definition addTagValue :: "ExTag \<Rightarrow> string \<Rightarrow> ExTag" where
  "addTagValue t v = t\<lparr>tagValues := tagValues t @ [v]\<rparr>"

definition getNostrTag :: "ExTag \<Rightarrow> Tag" where
  "getNostrTag t = tagName t # tagValues t"

text \<open>\<^verbatim>\<open>setHashTags\<close> appends to \<^verbatim>\<open>*tgs\<close>; the model returns the new tag list.\<close>

definition setHashTags :: "string \<Rightarrow> Tags \<Rightarrow> Tags" where
  "setHashTags buf tgs =
     tgs @ map (\<lambda>m. getNostrTag
                      (addTagValue (addTagName \<lparr>tagName = [], tagValues = []\<rparr> ''t'')
                         (ReplaceAllString stripPattern m [])))
               (FindAllString hashTagPattern buf)"

text \<open>\<^verbatim>\<open>match[5:]\<close> cannot fail: a match has 63 bytes.\<close>

definition containsNsec1 :: "string \<Rightarrow> bool" where
  "containsNsec1 text =
     list_ex (\<lambda>m. \<not> MatchString nsec1Pattern (drop 5 m)) (FindAllString nsecPattern text)"

section \<open>Vocabulary of the statements\<close>

definition panicked :: "error option \<Rightarrow> bool" where
  "panicked r = (case r of Some (Panic m) \<Rightarrow> True | _ \<Rightarrow> False)"

definition invalidTagError :: error where
  "invalidTagError = Error ''Inclusion of invalid tag in specified kind''"

definition logLine :: "int \<Rightarrow> string \<Rightarrow> string" where
  "logLine kind name = ''kind : '' @ showInt kind @ '', tagName : '' @ name @ [CHR 0x0A]"

definition panicMsg :: string where
  "panicMsg = ''runtime error: index out of range [0] with length 0''"

definition registered :: "string \<Rightarrow> bool" where
  "registered cmd = (NewConvArgsTagsTbl cmd \<noteq> None)"

text \<open>The relays to which a connection was attempted, in the order of the attempts.\<close>

fun connects :: "effect list \<Rightarrow> string list" where
  "connects [] = []"
| "connects (RelayConnect url # es) = url # connects es"
| "connects (e # es) = connects es"

text \<open>The relays to which the event was submitted, in order.\<close>

fun publishes :: "effect list \<Rightarrow> string list" where
  "publishes [] = []"
| "publishes (Publish url ev # es) = url # publishes es"
| "publishes (e # es) = publishes es"

text \<open>The pieces of text written to the standard output, in order.\<close>

fun stdout :: "effect list \<Rightarrow> string list" where
  "stdout [] = []"
| "stdout (Stdout line # es) = line # stdout es"
| "stdout (e # es) = stdout es"

text \<open>The events handed to the signer or submitted to a relay.\<close>

fun events :: "effect list \<Rightarrow> Event list" where
  "events [] = []"
| "events (SignEvent ev sk # es) = ev # events es"
| "events (Publish url ev # es) = ev # events es"
| "events (e # es) = events es"

text \<open>The outcome of the attempt at one relay, as the line it leaves on the standard
  output: the connection error, the publish error, or the success line.\<close>

definition relayOutcome :: "world \<Rightarrow> Event \<Rightarrow> nat \<Rightarrow> string \<Rightarrow> string" where
  "relayOutcome w ev n url =
     (case nostr_RelayConnect w n url of
        Some err \<Rightarrow> err @ [newline]
      | None \<Rightarrow>
          (case nostr_Publish w n url ev of
             Some err \<Rightarrow> err @ [newline]
           | None \<Rightarrow> ''published to '' @ url @ [newline]))"

text \<open>A run in which the key file holds one key, the relay file lists three relays, and
  the second relay refuses the connection while the third rejects the event.\<close>

definition exampleWorld :: world where
  "exampleWorld =
     \<lparr>os_Getenv_HOME = ''/home/u'',
      os_Stat = (\<lambda>p. None),
      os_Mkdir = (\<lambda>p. None),
      ioutil_ReadFile = (\<lambda>p. if p = ''/home/u/.nostk/.hsec'' then Inr (''01'' @ [newline])
                              else Inr ''{}''),
      json_Unmarshal_keys = (\<lambda>b. Inr [''wss://a'', ''wss://b'', ''wss://c'']),
      nostr_GetPublicKey = (\<lambda>sk. Inr ''02''),
      nostr_Now = 1700000000,
      nostr_Sign = (\<lambda>ev sk. Some (''id'', ''sig'')),
      nostr_RelayConnect = (\<lambda>n url. if url = ''wss://b'' then Some ''dial failed'' else None),
      nostr_Publish = (\<lambda>n url ev. if url = ''wss://c'' then Some ''rejected'' else None)\<rparr>"

text \<open>The same run with no key file: \<^verbatim>\<open>os.Stat\<close> fails on its path.\<close>

definition missingKeyWorld :: world where
  "missingKeyWorld =
     exampleWorld\<lparr>os_Stat := (\<lambda>p. if p = ''/home/u/.nostk/.hsec''
                                  then Some ''stat /home/u/.nostk/.hsec: no such file or directory''
                                  else None)\<rparr>"

text \<open>Three more runs: the key file is there and cannot be read, the key file is there
  and empty, and the relay file is there and cannot be read.\<close>

definition unreadableKeyWorld :: world where
  "unreadableKeyWorld =
     exampleWorld\<lparr>ioutil_ReadFile :=
       (\<lambda>p. if p = ''/home/u/.nostk/.hsec''
             then Inl ''open /home/u/.nostk/.hsec: permission denied''
             else Inr ''{}'')\<rparr>"

definition emptyKeyWorld :: world where
  "emptyKeyWorld =
     exampleWorld\<lparr>ioutil_ReadFile :=
       (\<lambda>p. if p = ''/home/u/.nostk/.hsec'' then Inr [] else Inr ''{}'')\<rparr>"

definition unreadableRelaysWorld :: world where
  "unreadableRelaysWorld =
     exampleWorld\<lparr>ioutil_ReadFile :=
       (\<lambda>p. if p = ''/home/u/.nostk/.hsec'' then Inr (''01'' @ [newline])
             else Inl ''open /home/u/.nostk/relays.json: permission denied'')\<rparr>"

text \<open>The event that \<^verbatim>\<open>publishMessage\<close> composes, and the event after \<^verbatim>\<open>ev.Sign(sk)\<close>.\<close>

definition draftEvent :: "world \<Rightarrow> string \<Rightarrow> string \<Rightarrow> Event" where
  "draftEvent w pk s =
     \<lparr>ID = [], PubKey = pk, CreatedAt = nostr_Now w, EvKind = KindTextNote, EvTags = [],
      EvContent = s, Sig = []\<rparr>"

definition signedEvent :: "world \<Rightarrow> string \<Rightarrow> Event \<Rightarrow> Event" where
  "signedEvent w sk ev =
     (case nostr_Sign w ev sk of None \<Rightarrow> ev | Some (i, sg) \<Rightarrow> ev\<lparr>ID := i, Sig := sg\<rparr>)"

text \<open>A 63-byte token as the leak detector looks for it: \<^verbatim>\<open>nsec1\<close> and 58 letters or
  digits. \<open>tokenAt\<close> says that a string begins with such a token.\<close>

definition alnumChar :: "char \<Rightarrow> bool" where
  "alnumChar c =
     ((97 \<le> byte c \<and> byte c \<le> 122) \<or> (65 \<le> byte c \<and> byte c \<le> 90) \<or> (48 \<le> byte c \<and> byte c \<le> 57))"

definition tokenAt :: "string \<Rightarrow> bool" where
  "tokenAt s = (63 \<le> length s \<and> take 5 s = ''nsec1'' \<and> list_all alnumChar (take 58 (drop 5 s)))"

definition isNsecToken :: "string \<Rightarrow> bool" where
  "isNsecToken tok = (length tok = 63 \<and> tokenAt tok)"

text \<open>Whether a text occurs somewhere in a string.\<close>

fun occursIn :: "string \<Rightarrow> string \<Rightarrow> bool" where
  "occursIn p [] = (p = [])"
| "occursIn p (c # cs) = (take (length p) (c # cs) = p \<or> occursIn p cs)"

text \<open>A token ``composed only of repeated copies of the prefix'': it is a prefix of
  \<^verbatim>\<open>nsec1nsec1nsec1...\<close> (63 is no multiple of 5, so the last copy is cut).\<close>

definition onlyPrefixCopies :: "string \<Rightarrow> bool" where
  "onlyPrefixCopies tok = (tok = take (length tok) (concat (replicate (length tok) ''nsec1'')))"

text \<open>The verdict of the scan of \<^verbatim>\<open>containsNsec1\<close> when it has come to the string \<open>s\<close>:
  whether a match from here on has a tail in which \<^verbatim>\<open>nsec1\<close> does not occur.\<close>

definition leak :: "bool \<Rightarrow> bool \<Rightarrow> string \<Rightarrow> bool" where
  "leak b adj s = list_ex (\<lambda>m. \<not> occursIn ''nsec1'' (drop 5 m)) (findAll nsecPattern b adj s)"

text \<open>\<open>n\<close> copies of the bare prefix.\<close>

fun copies :: "nat \<Rightarrow> string" where
  "copies 0 = []"
| "copies (Suc n) = ''nsec1'' @ copies n"

text \<open>Text without a hash sign: ASCII bytes other than \<^verbatim>\<open>#\<close>. A white-space byte is one
  of the five of \<^verbatim>\<open>\s\<close>; \<open>spaceOrEnd\<close> says that a string is empty or begins with one.\<close>

definition plainChar :: "char \<Rightarrow> bool" where
  "plainChar c = (byte c < 128 \<and> c \<noteq> CHR ''#'')"

definition plain :: "string \<Rightarrow> bool" where
  "plain s = list_all plainChar s"

definition spaceChar :: "char \<Rightarrow> bool" where
  "spaceChar c = (byte c = 9 \<or> byte c = 10 \<or> byte c = 12 \<or> byte c = 13 \<or> byte c = 32)"

definition spaceOrEnd :: "string \<Rightarrow> bool" where
  "spaceOrEnd v = (case v of [] \<Rightarrow> True | c # cs \<Rightarrow> spaceChar c)"

text \<open>No hash sign among the first two bytes of a string.\<close>

definition noHashAhead :: "string \<Rightarrow> bool" where
  "noHashAhead s =
     (case s of [] \<Rightarrow> True | [c] \<Rightarrow> plainChar c | c # d # ds \<Rightarrow> plainChar c \<and> plainChar d)"

text \<open>Paired-delimiter exclusion followed by hashtag extraction.\<close>

definition excludeThenSetHashTags :: "string \<Rightarrow> Tags \<Rightarrow> error + Tags" where
  "excludeThenSetHashTags content tgs =
     (case excludeHashtagsParsign content of
        Inl err \<Rightarrow> Inl err
      | Inr buf \<Rightarrow> Inr (setHashTags buf tgs))"

section \<open>The tag schema\<close>

lemma checkTags_loop_find:
  "\<forall>tg\<in>set tgs. tg \<noteq> [] \<Longrightarrow>
   checkTags_loop list kind tgs =
     (case List.find (\<lambda>tg. \<not> contains list kind (hd tg)) tgs of
        None \<Rightarrow> ([], None)
      | Some tg \<Rightarrow> ([logLine kind (hd tg)], Some invalidTagError))"
  by (induction tgs) (auto simp: indexTagName_def logLine_def invalidTagError_def hd_conv_nth)

lemma checkTags_loop_ok_iff:
  "\<forall>tg\<in>set tgs. tg \<noteq> [] \<Longrightarrow>
   (checkTags_loop list kind tgs = ([], None)) = (\<forall>tg\<in>set tgs. contains list kind (hd tg))"
  by (induction tgs) (auto simp: indexTagName_def hd_conv_nth)

lemma checkTags_loop_panic_iff:
  "panicked (snd (checkTags_loop list kind tgs)) =
     (\<exists>pre post. tgs = pre @ [] # post \<and> (\<forall>tg\<in>set pre. tg \<noteq> [] \<and> contains list kind (hd tg)))"
proof (induction tgs)
  case Nil
  then show ?case by (simp add: panicked_def)
next
  case (Cons tg tgs)
  show ?case
  proof (cases "tg = []")
    case True
    have "tg # tgs = [] @ [] # tgs \<and> (\<forall>t\<in>set []. t \<noteq> [] \<and> contains list kind (hd t))"
      using True by simp
    then have "\<exists>pre post. tg # tgs = pre @ [] # post \<and> (\<forall>t\<in>set pre. t \<noteq> [] \<and> contains list kind (hd t))"
      by blast
    then show ?thesis using True by (simp add: panicked_def indexTagName_def)
  next
    case False
    show ?thesis
    proof (cases "contains list kind (hd tg)")
      case True
      have "(\<exists>pre post. tg # tgs = pre @ [] # post \<and> (\<forall>t\<in>set pre. t \<noteq> [] \<and> contains list kind (hd t)))
          = (\<exists>pre post. tgs = pre @ [] # post \<and> (\<forall>t\<in>set pre. t \<noteq> [] \<and> contains list kind (hd t)))"
        (is "?L = ?R")
      proof
        assume ?L
        then obtain pre post where p: "tg # tgs = pre @ [] # post"
          "\<forall>t\<in>set pre. t \<noteq> [] \<and> contains list kind (hd t)" by blast
        from p False obtain pre' where "pre = tg # pre'" by (cases pre) auto
        with p show ?R by auto
      next
        assume ?R
        then obtain pre post where p: "tgs = pre @ [] # post"
          "\<forall>t\<in>set pre. t \<noteq> [] \<and> contains list kind (hd t)" by blast
        then have "tg # tgs = (tg # pre) @ [] # post \<and> (\<forall>t\<in>set (tg # pre). t \<noteq> [] \<and> contains list kind (hd t))"
          using False True by simp
        then show ?L by blast
      qed
      then show ?thesis using Cons False True by (simp add: indexTagName_def hd_conv_nth)
    next
      case nc: False
      have "\<not> (\<exists>pre post. tg # tgs = pre @ [] # post \<and> (\<forall>t\<in>set pre. t \<noteq> [] \<and> contains list kind (hd t)))"
      proof
        assume "\<exists>pre post. tg # tgs = pre @ [] # post \<and> (\<forall>t\<in>set pre. t \<noteq> [] \<and> contains list kind (hd t))"
        then obtain pre post where p: "tg # tgs = pre @ [] # post"
          "\<forall>t\<in>set pre. t \<noteq> [] \<and> contains list kind (hd t)" by blast
        from p False obtain pre' where "pre = tg # pre'" by (cases pre) auto
        with p nc show False by auto
      qed
      then show ?thesis using False nc by (simp add: indexTagName_def hd_conv_nth panicked_def)
    qed
  qed
qed

text \<open>
  Claim C3. On a tag sequence whose tags are all non-empty, \<^verbatim>\<open>checkTags\<close> returns
  \<^verbatim>\<open>nil\<close> exactly when the name of every tag is in the allowed set of the kind. Otherwise it
  stops at the first tag whose name is not allowed, logs the kind and that name, and
  returns the error. A kind that is no key of the table has the empty allowed set, so
  every non-empty sequence fails there, at its first tag.
\<close>

theorem checkTags_succeeds_iff_allowed:
  assumes "\<forall>tg\<in>set tgs. tg \<noteq> []"
  shows "(snd (checkTags kind tgs) = None) = (\<forall>tg\<in>set tgs. contains NewChkTblMap kind (hd tg))
       \<and> checkTags kind tgs =
           (case List.find (\<lambda>tg. \<not> contains NewChkTblMap kind (hd tg)) tgs of
              None \<Rightarrow> ([], None)
            | Some tg \<Rightarrow> ([logLine kind (hd tg)], Some invalidTagError))
       \<and> (NewChkTblMap kind = None \<longrightarrow>
            sliceToMap NewChkTblMap kind = {}
            \<and> (tgs \<noteq> [] \<longrightarrow> checkTags kind tgs = ([logLine kind (hd (hd tgs))], Some invalidTagError)))"
proof -
  have f: "checkTags kind tgs =
           (case List.find (\<lambda>tg. \<not> contains NewChkTblMap kind (hd tg)) tgs of
              None \<Rightarrow> ([], None)
            | Some tg \<Rightarrow> ([logLine kind (hd tg)], Some invalidTagError))"
    unfolding checkTags_def using assms by (rule checkTags_loop_find)
  have "(snd (checkTags kind tgs) = None) = (checkTags kind tgs = ([], None))"
    by (simp add: f split: option.splits)
  then have i: "(snd (checkTags kind tgs) = None) = (\<forall>tg\<in>set tgs. contains NewChkTblMap kind (hd tg))"
    unfolding checkTags_def using checkTags_loop_ok_iff[OF assms] by simp
  have u: "NewChkTblMap kind = None \<longrightarrow>
            sliceToMap NewChkTblMap kind = {}
            \<and> (tgs \<noteq> [] \<longrightarrow> checkTags kind tgs = ([logLine kind (hd (hd tgs))], Some invalidTagError))"
  proof
    assume n: "NewChkTblMap kind = None"
    then have e: "sliceToMap NewChkTblMap kind = {}" by (simp add: sliceToMap_def)
    then have nc: "\<And>t. \<not> contains NewChkTblMap kind t" by (simp add: contains_def)
    have "tgs \<noteq> [] \<longrightarrow> checkTags kind tgs = ([logLine kind (hd (hd tgs))], Some invalidTagError)"
      using f nc by (cases tgs) auto
    with e show "sliceToMap NewChkTblMap kind = {}
            \<and> (tgs \<noteq> [] \<longrightarrow> checkTags kind tgs = ([logLine kind (hd (hd tgs))], Some invalidTagError))"
      by simp
  qed
  from i f u show ?thesis by simp
qed

theorem checkTags_succeeds_iff_allowed_witness:
  "[''t'', ''x''] \<noteq> [] \<and> [''bogus'', ''y''] \<noteq> []
   \<and> snd (checkTags 1 [[''t'', ''x''], [''bogus'', ''y'']]) \<noteq> None
   \<and> checkTags 1 [[''t'', ''x''], [''bogus'', ''y'']] =
       ([''kind : 1, tagName : bogus'' @ [CHR 0x0A]], Some (Error ''Inclusion of invalid tag in specified kind''))
   \<and> [''e'', ''x''] \<noteq> [] \<and> NewChkTblMap 7 = None \<and> [[''e'', ''x'']] \<noteq> []
   \<and> checkTags 7 [[''e'', ''x'']] =
       ([''kind : 7, tagName : e'' @ [CHR 0x0A]], Some (Error ''Inclusion of invalid tag in specified kind''))"
proof -
  have h1: "\<forall>tg\<in>set [[''t'', ''x''], [''bogus'', ''y'']]. tg \<noteq> []" by simp
  have h2: "\<forall>tg\<in>set [[''e'', ''x'']]. tg \<noteq> []" by simp
  have n: "NewChkTblMap 7 = None" by (simp add: NewChkTblMap_def)
  have s1: "showInt 1 = ''1''" by code_simp
  have s7: "showInt 7 = ''7''" by code_simp
  have c: "contains NewChkTblMap 1 ''t''" "\<not> contains NewChkTblMap 1 ''bogus''"
    "\<not> contains NewChkTblMap 7 ''e''"
    by (simp_all add: contains_def sliceToMap_def NewChkTblMap_def)
  from checkTags_succeeds_iff_allowed[OF h1, of 1] checkTags_succeeds_iff_allowed[OF h2, of 7]
  show ?thesis using h1 h2 n c by (simp add: logLine_def invalidTagError_def s1 s7)
qed

lemma checkTags_loop_first_stop:
  "checkTags_loop list kind tgs =
     (case List.find (\<lambda>tg. tg = [] \<or> \<not> contains list kind (hd tg)) tgs of
        None \<Rightarrow> ([], None)
      | Some tg \<Rightarrow>
          if tg = [] then ([], Some (Panic panicMsg))
          else ([logLine kind (hd tg)], Some invalidTagError))"
  by (induction tgs)
     (auto simp: indexTagName_def logLine_def invalidTagError_def panicMsg_def hd_conv_nth)

lemma find_first_stop:
  "\<forall>t\<in>set pre. \<not> P t \<Longrightarrow> P tg \<Longrightarrow> List.find P (pre @ tg # post) = Some tg"
  by (induction pre) auto

text \<open>
  Claim C10, amended. \<^verbatim>\<open>checkTags\<close> does not panic when every tag is non-empty, and it
  panics exactly when an empty tag is reached, that is, when every tag before the first
  empty one is non-empty with an allowed name; it then returns nothing else. An earlier
  non-empty tag with a name that is not allowed makes it log that name and return the
  invalid-tag error, whatever follows. In general the first tag that is empty or has a
  name that is not allowed decides the result.
\<close>

theorem checkTags_panics_iff:
  "((\<forall>tg\<in>set tgs. tg \<noteq> []) \<longrightarrow> \<not> panicked (snd (checkTags kind tgs)))
   \<and> (panicked (snd (checkTags kind tgs)) =
        (\<exists>pre post. tgs = pre @ [] # post
           \<and> (\<forall>tg\<in>set pre. tg \<noteq> [] \<and> contains NewChkTblMap kind (hd tg))))
   \<and> ((\<forall>t\<in>set pre. t \<noteq> [] \<and> contains NewChkTblMap kind (hd t)) \<longrightarrow>
        checkTags kind (pre @ [] # post) = ([], Some (Panic panicMsg)))
   \<and> ((\<forall>t\<in>set pre. t \<noteq> [] \<and> contains NewChkTblMap kind (hd t)) \<longrightarrow>
        tg \<noteq> [] \<longrightarrow> \<not> contains NewChkTblMap kind (hd tg) \<longrightarrow>
        checkTags kind (pre @ tg # post) = ([logLine kind (hd tg)], Some invalidTagError))
   \<and> checkTags kind tgs =
       (case List.find (\<lambda>tg. tg = [] \<or> \<not> contains NewChkTblMap kind (hd tg)) tgs of
          None \<Rightarrow> ([], None)
        | Some tg \<Rightarrow>
            if tg = [] then ([], Some (Panic panicMsg))
            else ([logLine kind (hd tg)], Some invalidTagError))"
proof -
  let ?P = "\<lambda>tg. tg = [] \<or> \<not> contains NewChkTblMap kind (hd tg)"
  have p: "panicked (snd (checkTags kind tgs)) =
        (\<exists>pre post. tgs = pre @ [] # post
           \<and> (\<forall>tg\<in>set pre. tg \<noteq> [] \<and> contains NewChkTblMap kind (hd tg)))"
    unfolding checkTags_def by (rule checkTags_loop_panic_iff)
  have t: "(\<forall>tg\<in>set tgs. tg \<noteq> []) \<longrightarrow> \<not> panicked (snd (checkTags kind tgs))"
    unfolding p by auto
  have f: "checkTags kind ts =
       (case List.find ?P ts of
          None \<Rightarrow> ([], None)
        | Some tg \<Rightarrow>
            if tg = [] then ([], Some (Panic panicMsg))
            else ([logLine kind (hd tg)], Some invalidTagError))" for ts
    unfolding checkTags_def by (rule checkTags_loop_first_stop)
  have e: "(\<forall>t\<in>set pre. t \<noteq> [] \<and> contains NewChkTblMap kind (hd t)) \<longrightarrow>
        checkTags kind (pre @ [] # post) = ([], Some (Panic panicMsg))"
  proof
    assume "\<forall>t\<in>set pre. t \<noteq> [] \<and> contains NewChkTblMap kind (hd t)"
    then have "\<forall>t\<in>set pre. \<not> ?P t" by simp
    then have "List.find ?P (pre @ [] # post) = Some []" by (rule find_first_stop) simp
    then show "checkTags kind (pre @ [] # post) = ([], Some (Panic panicMsg))"
      by (simp add: f)
  qed
  have r: "(\<forall>t\<in>set pre. t \<noteq> [] \<and> contains NewChkTblMap kind (hd t)) \<longrightarrow>
        tg \<noteq> [] \<longrightarrow> \<not> contains NewChkTblMap kind (hd tg) \<longrightarrow>
        checkTags kind (pre @ tg # post) = ([logLine kind (hd tg)], Some invalidTagError)"
  proof (intro impI)
    assume a: "\<forall>t\<in>set pre. t \<noteq> [] \<and> contains NewChkTblMap kind (hd t)"
      and b: "tg \<noteq> []" and c: "\<not> contains NewChkTblMap kind (hd tg)"
    from a have "\<forall>t\<in>set pre. \<not> ?P t" by simp
    moreover from c have "?P tg" by simp
    ultimately have "List.find ?P (pre @ tg # post) = Some tg" by (rule find_first_stop)
    then show "checkTags kind (pre @ tg # post) = ([logLine kind (hd tg)], Some invalidTagError)"
      using b by (simp add: f)
  qed
  from t p e r f[of tgs] show ?thesis by blast
qed

theorem checkTags_panics_iff_witness:
  "[''t'', ''x''] \<noteq> [] \<and> \<not> panicked (snd (checkTags 1 [[''t'', ''x'']]))
   \<and> contains NewChkTblMap 1 (hd [''t'', ''x''])
   \<and> panicked (snd (checkTags 1 [[''t'', ''x''], []]))
   \<and> checkTags 1 ([[''t'', ''x'']] @ [] # [[''bogus'']])
        = ([], Some (Panic ''runtime error: index out of range [0] with length 0''))
   \<and> [''bogus'', ''y''] \<noteq> [] \<and> \<not> contains NewChkTblMap 1 (hd [''bogus'', ''y''])
   \<and> checkTags 1 ([[''t'', ''x'']] @ [''bogus'', ''y''] # [[], [''p'', ''z'']])
        = ([''kind : 1, tagName : bogus'' @ [CHR 0x0A]],
           Some (Error ''Inclusion of invalid tag in specified kind''))"
proof -
  have c: "contains NewChkTblMap 1 ''t''" "\<not> contains NewChkTblMap 1 ''bogus''"
    by (simp_all add: contains_def sliceToMap_def NewChkTblMap_def)
  have s1: "showInt 1 = ''1''" by code_simp
  have h: "\<forall>t\<in>set [[''t'', ''x'']]. t \<noteq> [] \<and> contains NewChkTblMap 1 (hd t)"
    using c by simp
  have e: "\<exists>pre post. [[''t'', ''x''], []] = pre @ [] # post
           \<and> (\<forall>tg\<in>set pre. tg \<noteq> [] \<and> contains NewChkTblMap 1 (hd tg))"
    by (rule exI[of _ "[[''t'', ''x'']]"], rule exI[of _ "[]"]) (simp add: c)
  note a = checkTags_panics_iff[of "[[''t'', ''x'']]" 1 "[[''t'', ''x'']]" "[[''bogus'']]" "[''bogus'', ''y'']"]
  note b = checkTags_panics_iff[of "[[''t'', ''x''], []]" 1 "[[''t'', ''x'']]" "[[], [''p'', ''z'']]" "[''bogus'', ''y'']"]
  have h0: "\<forall>tg\<in>set [[''t'', ''x'']]. tg \<noteq> []" by simp
  from a h0 have 1: "\<not> panicked (snd (checkTags 1 [[''t'', ''x'']]))" by blast
  from a h have 2: "checkTags 1 ([[''t'', ''x'']] @ [] # [[''bogus'']]) = ([], Some (Panic panicMsg))"
    by blast
  from b e have 3: "panicked (snd (checkTags 1 [[''t'', ''x''], []]))" by blast
  from b h c have 4: "checkTags 1 ([[''t'', ''x'']] @ [''bogus'', ''y''] # [[], [''p'', ''z'']])
        = ([logLine 1 (hd [''bogus'', ''y''])], Some invalidTagError)" by simp
  from 1 2 3 4 c show ?thesis
    by (simp add: panicMsg_def logLine_def invalidTagError_def s1)
qed

text \<open>A sequence that contains an empty tag and on which \<^verbatim>\<open>checkTags\<close> returns the
  error value: the tag named \<^verbatim>\<open>bogus\<close> is rejected first.\<close>

theorem checkTags_panics_counterexample:
  "[] \<in> set [[''bogus''], []] \<and> \<not> panicked (snd (checkTags 1 [[''bogus''], []]))
   \<and> snd (checkTags 1 [[''bogus''], []]) = Some (Error ''Inclusion of invalid tag in specified kind'')"
  by (simp add: checkTags_def panicked_def indexTagName_def contains_def sliceToMap_def NewChkTblMap_def)

section \<open>The event builder\<close>

lemma registered_iff: "registered cmd = (cmd = ''pubMessage'' \<or> cmd = ''pubMessageTo'')"
  by (simp add: registered_def NewConvArgsTagsTbl_def)

lemma showInt_1: "showInt 1 = ''1''"
  by code_simp

lemma conv_has:
  "ConvArgsTagsTbl_hasSubcommand NewConvArgsTagsTbl args =
     (if length args \<le> 1 then Some (Error ''index 1 out of range in args'')
      else if registered (args ! 1) then None
      else Some (Error (''Not supported subcommand '' @ args ! 1)))"
  by (simp add: ConvArgsTagsTbl_hasSubcommand_def subCommandName_def showInt_1 registered_def Let_def)

lemma kind_get:
  "1 < length args \<Longrightarrow> registered (args ! 1) \<Longrightarrow> SubCmdKindTbl_get NewSubCmdKindTbl args = Inr 1"
  by (auto simp: SubCmdKindTbl_get_def SubCmdKindTbl_hasSubcommand_def subCommandName_def
      registered_iff NewSubCmdKindTbl_def Let_def)

lemma binding_3:
  "registered cmd \<Longrightarrow>
   binding NewConvArgsTagsTbl cmd 3 = [if cmd = ''pubMessage'' then ''content-warning'' else ''p'']"
  by (auto simp: registered_iff binding_def NewConvArgsTagsTbl_def)

lemma binding_other:
  "i \<noteq> 3 \<Longrightarrow> binding NewConvArgsTagsTbl cmd i = []"
  by (auto simp: binding_def NewConvArgsTagsTbl_def)

lemma addTags_3:
  "3 < length args \<Longrightarrow> registered (args ! 1) \<Longrightarrow>
   addTags args 3 tgs = Inr (tgs @ [[hd (binding NewConvArgsTagsTbl (args ! 1) 3), args ! 3]])"
  by (simp add: addTags_def conv_has subCommandName_def binding_3 Let_def)

lemma addTags_other:
  "1 < length args \<Longrightarrow> registered (args ! 1) \<Longrightarrow> i \<noteq> 3 \<Longrightarrow>
   addTags args i tgs = Inl (Panic panicMsg)"
  by (simp add: addTags_def conv_has subCommandName_def binding_other Let_def panicMsg_def)

lemma addTags_3':
  "3 < length args \<Longrightarrow> registered (args ! 1) \<Longrightarrow>
   addTags args (Suc (Suc (Suc 0))) tgs = Inr (tgs @ [[hd (binding NewConvArgsTagsTbl (args ! 1) 3), args ! 3]])"
  using addTags_3 by (simp add: numeral_3_eq_3)

lemma loop_panics_at_4:
  "4 < length args \<Longrightarrow> registered (args ! 1) \<Longrightarrow>
   buildJson_loop args (0 # 1 # 2 # 3 # 4 # is) ret = Inl (Panic panicMsg)"
  by (simp add: kind_get addTags_3 addTags_other)

lemma loop_panics_at_4':
  "4 < length args \<Longrightarrow> registered (args ! 1) \<Longrightarrow>
   buildJson_loop args (0 # Suc 0 # 2 # 3 # 4 # is) ret = Inl (Panic panicMsg)"
  using loop_panics_at_4 by simp

lemma upt_5: "4 < n \<Longrightarrow> [0 ..< n] = 0 # 1 # 2 # 3 # 4 # [5 ..< n]"
  by (simp add: upt_conv_Cons eval_nat_numeral)

lemma buildJson_ret_long:
  "4 < length args \<Longrightarrow> registered (args ! 1) \<Longrightarrow> buildJson_ret args = Inl (Panic panicMsg)"
  by (simp add: buildJson_ret_def conv_has upt_5 loop_panics_at_4' del: buildJson_loop.simps)

lemma buildJson_ret_2:
  "registered cmd \<Longrightarrow> buildJson_ret [prog, cmd] = Inr \<lparr>Kind = 1, Content = [], Tags = []\<rparr>"
  by (simp add: buildJson_ret_def conv_has kind_get upt_rec)

lemma buildJson_ret_3:
  "registered cmd \<Longrightarrow> buildJson_ret [prog, cmd, c] = Inr \<lparr>Kind = 1, Content = c, Tags = []\<rparr>"
  by (simp add: buildJson_ret_def conv_has kind_get upt_rec)

lemma buildJson_ret_4:
  "registered cmd \<Longrightarrow>
   buildJson_ret [prog, cmd, c, v] =
     Inr \<lparr>Kind = 1, Content = c, Tags = [[hd (binding NewConvArgsTagsTbl cmd 3), v]]\<rparr>"
  by (simp add: buildJson_ret_def conv_has kind_get upt_rec addTags_3')

lemma buildJson_ret_unregistered:
  "1 < length args \<Longrightarrow> \<not> registered (args ! 1) \<Longrightarrow>
   buildJson_ret args = Inl (Error (''Not supported subcommand '' @ args ! 1))"
  by (simp add: buildJson_ret_def conv_has)

lemma buildJson_ret_short:
  "length args \<le> 1 \<Longrightarrow> buildJson_ret args = Inl (Error ''index 1 out of range in args'')"
  by (simp add: buildJson_ret_def conv_has)

lemma list_cases_5:
  obtains "length args \<le> 1"
  | prog cmd where "args = [prog, cmd]"
  | prog cmd c where "args = [prog, cmd, c]"
  | prog cmd c v where "args = [prog, cmd, c, v]"
  | "4 < length args"
proof (cases args)
  case Nil then show ?thesis using that by simp
next
  case (Cons a as)
  then show ?thesis
  proof (cases as)
    case Nil with Cons show ?thesis using that by simp
  next
    case c2: (Cons b bs)
    show ?thesis
    proof (cases bs)
      case Nil with Cons c2 show ?thesis using that by simp
    next
      case c3: (Cons c cs)
      show ?thesis
      proof (cases cs)
        case Nil with Cons c2 c3 show ?thesis using that by simp
      next
        case c4: (Cons d ds)
        show ?thesis
        proof (cases ds)
          case Nil with Cons c2 c3 c4 show ?thesis using that by simp
        next
          case (Cons e es) with \<open>args = a # as\<close> c2 c3 c4 show ?thesis using that by simp
        qed
      qed
    qed
  qed
qed

lemma buildJson_ret_Inr:
  assumes "buildJson_ret args = Inr ret"
  shows "1 < length args \<and> length args \<le> 4 \<and> registered (args ! 1)
       \<and> Kind ret = 1
       \<and> Content ret = (if 2 < length args then args ! 2 else [])
       \<and> Tags ret = map (\<lambda>i. [hd (binding NewConvArgsTagsTbl (args ! 1) i), args ! i]) [3 ..< length args]"
proof -
  have r: "1 < length args \<and> registered (args ! 1)"
    using assms buildJson_ret_short[of args] buildJson_ret_unregistered[of args]
    by (cases "length args \<le> 1"; cases "registered (args ! 1)") auto
  show ?thesis
  proof (cases args rule: list_cases_5)
    case 1 with r show ?thesis by simp
  next
    case (2 prog cmd)
    with r assms show ?thesis by (auto simp: buildJson_ret_2)
  next
    case (3 prog cmd c)
    with r assms show ?thesis by (auto simp: buildJson_ret_3)
  next
    case (4 prog cmd c v)
    with r assms show ?thesis by (auto simp: buildJson_ret_4 upt_rec)
  next
    case 5
    with r assms show ?thesis by (simp add: buildJson_ret_long)
  qed
qed

lemma allowed_bound:
  "registered cmd \<Longrightarrow> contains NewChkTblMap 1 (hd (binding NewConvArgsTagsTbl cmd 3))"
  by (auto simp: registered_iff binding_def NewConvArgsTagsTbl_def contains_def sliceToMap_def NewChkTblMap_def)

lemma buildJson_ret_conforms:
  assumes "buildJson_ret args = Inr ret"
  shows "\<forall>tg\<in>set (Tags ret). tg \<noteq> [] \<and> contains NewChkTblMap (Kind ret) (hd tg)"
proof -
  note r = buildJson_ret_Inr[OF assms]
  from r have l: "length args \<le> 4" and g: "registered (args ! 1)" and k: "Kind ret = 1" by simp_all
  have "[3 ..< length args] = [] \<or> [3 ..< length args] = [3]"
  proof (cases "length args = 4")
    case True
    then show ?thesis by (simp add: upt_conv_Cons)
  next
    case False
    with l show ?thesis by simp
  qed
  then show ?thesis
  proof
    assume "[3 ..< length args] = []"
    with r show ?thesis by simp
  next
    assume "[3 ..< length args] = [3]"
    with r have "Tags ret = [[hd (binding NewConvArgsTagsTbl (args ! 1) 3), args ! 3]]" by simp
    with k allowed_bound[OF g] show ?thesis by simp
  qed
qed

lemma checkTags_ok:
  "\<forall>tg\<in>set tgs. tg \<noteq> [] \<and> contains NewChkTblMap kind (hd tg) \<Longrightarrow> checkTags kind tgs = ([], None)"
  unfolding checkTags_def using checkTags_loop_ok_iff[of tgs NewChkTblMap kind] by simp

lemma no_checkTags_in_loop: "Call_checkTags k t \<notin> set (buildJson_loop_calls args is ret)"
  by (induction args "is" ret rule: buildJson_loop_calls.induct)
     (auto simp: SubCmdKindTbl_get_calls_def addTags_calls_def split: sum.splits)

lemma no_checkTags_call: "Call_checkTags k t \<notin> set (buildJson_calls args)"
  by (auto simp: buildJson_calls_def no_checkTags_in_loop split: option.splits sum.splits)

lemma buildJson_ret_tags:
  assumes "buildJson_ret args = Inr ret"
  shows "Tags ret = [] \<or> Tags ret = [[''content-warning'', args ! 3]] \<or> Tags ret = [[''p'', args ! 3]]"
proof -
  note r = buildJson_ret_Inr[OF assms]
  from r have l: "length args \<le> 4" and g: "registered (args ! 1)" by simp_all
  have "[3 ..< length args] = [] \<or> [3 ..< length args] = [3]"
  proof (cases "length args = 4")
    case True
    then show ?thesis by (simp add: upt_conv_Cons)
  next
    case False
    with l show ?thesis by simp
  qed
  then show ?thesis
  proof
    assume "[3 ..< length args] = []"
    with r show ?thesis by simp
  next
    assume "[3 ..< length args] = [3]"
    with r have "Tags ret = [[hd (binding NewConvArgsTagsTbl (args ! 1) 3), args ! 3]]" by simp
    with binding_3[OF g] show ?thesis by (cases "args ! 1 = ''pubMessage''") simp_all
  qed
qed

lemma example_calls:
  "buildJson_calls [''nostk'', ''pubMessage'', ''hi'', ''spoiler''] =
     [Call_NewConvArgsTagsTbl, Call_NewSubCmdKindTbl,
      Call_ConvArgsTagsTbl_hasSubcommand [''nostk'', ''pubMessage'', ''hi'', ''spoiler''],
      Call_SubCmdKindTbl_get [''nostk'', ''pubMessage'', ''hi'', ''spoiler''],
      Call_SubCmdKindTbl_hasSubcommand [''nostk'', ''pubMessage'', ''hi'', ''spoiler''],
      Call_addTags [''nostk'', ''pubMessage'', ''hi'', ''spoiler''] 3,
      Call_NewConvArgsTagsTbl,
      Call_ConvArgsTagsTbl_hasSubcommand [''nostk'', ''pubMessage'', ''hi'', ''spoiler''],
      Call_json_Marshal \<lparr>Kind = 1, Content = ''hi'', Tags = [[''content-warning'', ''spoiler'']]\<rparr>]"
proof -
  have r: "registered ''pubMessage''" by (simp add: registered_iff)
  have b: "buildJson_ret [''nostk'', ''pubMessage'', ''hi'', ''spoiler'']
     = Inr \<lparr>Kind = 1, Content = ''hi'', Tags = [[''content-warning'', ''spoiler'']]\<rparr>"
    by (simp add: buildJson_ret_4 registered_iff binding_3)
  show ?thesis
    by (simp add: buildJson_calls_def b conv_has r kind_get addTags_3' binding_3 upt_rec
        SubCmdKindTbl_get_calls_def addTags_calls_def)
qed

text \<open>
  Claim C2, amended. \<^verbatim>\<open>buildJson\<close> never calls \<^verbatim>\<open>checkTags\<close>, on any argument list. Even
  so, every value it returns has at most one tag, named \<^verbatim>\<open>content-warning\<close> or \<^verbatim>\<open>p\<close>, the
  only names bound in \<^verbatim>\<open>ConvArgsTagsTbl\<close>; each tag is non-empty with a name in the allowed
  set of the kind, and \<^verbatim>\<open>checkTags\<close> applied to the returned kind and tags returns \<^verbatim>\<open>nil\<close>
  and logs nothing.
\<close>

theorem buildJson_returns_only_conforming_tags:
  "Call_checkTags k t \<notin> set (buildJson_calls args)
   \<and> (buildJson_ret args = Inr ret \<longrightarrow>
        (Tags ret = [] \<or> Tags ret = [[''content-warning'', args ! 3]] \<or> Tags ret = [[''p'', args ! 3]])
        \<and> (\<forall>tg\<in>set (Tags ret). tg \<noteq> [] \<and> contains NewChkTblMap (Kind ret) (hd tg))
        \<and> checkTags (Kind ret) (Tags ret) = ([], None))"
proof -
  have "buildJson_ret args = Inr ret \<longrightarrow>
        (Tags ret = [] \<or> Tags ret = [[''content-warning'', args ! 3]] \<or> Tags ret = [[''p'', args ! 3]])
        \<and> (\<forall>tg\<in>set (Tags ret). tg \<noteq> [] \<and> contains NewChkTblMap (Kind ret) (hd tg))
        \<and> checkTags (Kind ret) (Tags ret) = ([], None)"
  proof
    assume a: "buildJson_ret args = Inr ret"
    from buildJson_ret_tags[OF a] buildJson_ret_conforms[OF a] checkTags_ok[OF buildJson_ret_conforms[OF a]]
    show "(Tags ret = [] \<or> Tags ret = [[''content-warning'', args ! 3]] \<or> Tags ret = [[''p'', args ! 3]])
        \<and> (\<forall>tg\<in>set (Tags ret). tg \<noteq> [] \<and> contains NewChkTblMap (Kind ret) (hd tg))
        \<and> checkTags (Kind ret) (Tags ret) = ([], None)" by blast
  qed
  with no_checkTags_call[of k t args] show ?thesis by blast
qed

theorem buildJson_returns_only_conforming_tags_witness:
  "buildJson_ret [''nostk'', ''pubMessage'', ''hi'', ''spoiler'']
     = Inr \<lparr>Kind = 1, Content = ''hi'', Tags = [[''content-warning'', ''spoiler'']]\<rparr>
   \<and> Call_checkTags 1 [[''content-warning'', ''spoiler'']]
        \<notin> set (buildJson_calls [''nostk'', ''pubMessage'', ''hi'', ''spoiler''])
   \<and> contains NewChkTblMap 1 ''content-warning''
   \<and> checkTags 1 [[''content-warning'', ''spoiler'']] = ([], None)"
proof -
  have b: "buildJson_ret [''nostk'', ''pubMessage'', ''hi'', ''spoiler'']
     = Inr \<lparr>Kind = 1, Content = ''hi'', Tags = [[''content-warning'', ''spoiler'']]\<rparr>"
    by (simp add: buildJson_ret_4 registered_iff binding_3)
  from buildJson_returns_only_conforming_tags[of 1 "[[''content-warning'', ''spoiler'']]"
      "[''nostk'', ''pubMessage'', ''hi'', ''spoiler'']"
      "\<lparr>Kind = 1, Content = ''hi'', Tags = [[''content-warning'', ''spoiler'']]\<rparr>"] b
  show ?thesis by simp
qed

text \<open>An argument list on which \<^verbatim>\<open>buildJson\<close> returns an event with a tag and has made
  nine calls, none of them to \<^verbatim>\<open>checkTags\<close>.\<close>

theorem buildJson_skips_validator_counterexample:
  "buildJson_ret [''nostk'', ''pubMessage'', ''hi'', ''spoiler'']
     = Inr \<lparr>Kind = 1, Content = ''hi'', Tags = [[''content-warning'', ''spoiler'']]\<rparr>
   \<and> buildJson_calls [''nostk'', ''pubMessage'', ''hi'', ''spoiler''] =
     [Call_NewConvArgsTagsTbl, Call_NewSubCmdKindTbl,
      Call_ConvArgsTagsTbl_hasSubcommand [''nostk'', ''pubMessage'', ''hi'', ''spoiler''],
      Call_SubCmdKindTbl_get [''nostk'', ''pubMessage'', ''hi'', ''spoiler''],
      Call_SubCmdKindTbl_hasSubcommand [''nostk'', ''pubMessage'', ''hi'', ''spoiler''],
      Call_addTags [''nostk'', ''pubMessage'', ''hi'', ''spoiler''] 3,
      Call_NewConvArgsTagsTbl,
      Call_ConvArgsTagsTbl_hasSubcommand [''nostk'', ''pubMessage'', ''hi'', ''spoiler''],
      Call_json_Marshal \<lparr>Kind = 1, Content = ''hi'', Tags = [[''content-warning'', ''spoiler'']]\<rparr>]
   \<and> Call_checkTags 1 [[''content-warning'', ''spoiler'']]
        \<notin> set (buildJson_calls [''nostk'', ''pubMessage'', ''hi'', ''spoiler''])"
proof -
  have b: "buildJson_ret [''nostk'', ''pubMessage'', ''hi'', ''spoiler'']
     = Inr \<lparr>Kind = 1, Content = ''hi'', Tags = [[''content-warning'', ''spoiler'']]\<rparr>"
    by (simp add: buildJson_ret_4 registered_iff binding_3)
  from b example_calls no_checkTags_call show ?thesis by blast
qed

text \<open>
  Claim C4. With a fifth argument, position 4 has no binding for \<^verbatim>\<open>pubMessage\<close>:
  \<^verbatim>\<open>addTags\<close> reads element 0 of the nil slice and \<^verbatim>\<open>buildJson\<close> panics, where the claim
  asks for the unsupported-subcommand error.
\<close>

theorem buildJson_unbound_position_panics:
  "buildJson_ret [''nostk'', ''pubMessage'', ''hello'', ''cw'', ''extra'']
     = Inl (Panic ''runtime error: index out of range [0] with length 0'')
   \<and> binding NewConvArgsTagsTbl ''pubMessage'' 4 = []
   \<and> buildJson jsonMarshal [''nostk'', ''pubMessage'', ''hello'', ''cw'', ''extra'']
     = Inl (Panic ''runtime error: index out of range [0] with length 0'')"
proof -
  have "buildJson_ret [''nostk'', ''pubMessage'', ''hello'', ''cw'', ''extra''] = Inl (Panic panicMsg)"
    by (rule buildJson_ret_long) (simp_all add: registered_iff)
  then show ?thesis by (simp add: panicMsg_def binding_other buildJson_def)
qed

text \<open>
  Claim C5. The kind comes from the subcommand registry, the content is argument 2, and
  each argument at a position from 3 on becomes the tag of its bound name and its raw
  value; the two examples of the specification yield kind 1 with no tag, and kind 1
  with the single tag \<^verbatim>\<open>p\<close>.
\<close>

theorem buildJson_kind_content_tags:
  "buildJson_ret [prog, ''pubMessage'', ''hello''] = Inr \<lparr>Kind = 1, Content = ''hello'', Tags = []\<rparr>
   \<and> buildJson_ret [prog, ''pubMessageTo'', ''hi'', pk]
       = Inr \<lparr>Kind = 1, Content = ''hi'', Tags = [[''p'', pk]]\<rparr>
   \<and> buildJson jsonMarshal [prog, ''pubMessage'', ''hello'']
       = jsonMarshal \<lparr>Kind = 1, Content = ''hello'', Tags = []\<rparr>
   \<and> buildJson jsonMarshal [prog, ''pubMessageTo'', ''hi'', pk]
       = jsonMarshal \<lparr>Kind = 1, Content = ''hi'', Tags = [[''p'', pk]]\<rparr>
   \<and> (buildJson_ret args = Inr ret \<longrightarrow>
        NewSubCmdKindTbl (args ! 1) = Some (Kind ret)
        \<and> (2 < length args \<longrightarrow> Content ret = args ! 2)
        \<and> Tags ret = map (\<lambda>i. [hd (binding NewConvArgsTagsTbl (args ! 1) i), args ! i])
                        [3 ..< length args])"
proof -
  have m: "(case jsonMarshal r of Inl err \<Rightarrow> Inl err | Inr strJson \<Rightarrow> Inr strJson) = jsonMarshal r" for r
    by (cases "jsonMarshal r") simp_all
  have 1: "buildJson_ret [prog, ''pubMessage'', ''hello''] = Inr \<lparr>Kind = 1, Content = ''hello'', Tags = []\<rparr>"
    by (simp add: buildJson_ret_3 registered_iff)
  have 2: "buildJson_ret [prog, ''pubMessageTo'', ''hi'', pk]
       = Inr \<lparr>Kind = 1, Content = ''hi'', Tags = [[''p'', pk]]\<rparr>"
    by (simp add: buildJson_ret_4 registered_iff binding_3)
  have 3: "buildJson_ret args = Inr ret \<longrightarrow>
        NewSubCmdKindTbl (args ! 1) = Some (Kind ret)
        \<and> (2 < length args \<longrightarrow> Content ret = args ! 2)
        \<and> Tags ret = map (\<lambda>i. [hd (binding NewConvArgsTagsTbl (args ! 1) i), args ! i])
                        [3 ..< length args]"
  proof
    assume "buildJson_ret args = Inr ret"
    from buildJson_ret_Inr[OF this]
    show "NewSubCmdKindTbl (args ! 1) = Some (Kind ret)
        \<and> (2 < length args \<longrightarrow> Content ret = args ! 2)
        \<and> Tags ret = map (\<lambda>i. [hd (binding NewConvArgsTagsTbl (args ! 1) i), args ! i])
                        [3 ..< length args]"
      by (auto simp: registered_iff NewSubCmdKindTbl_def)
  qed
  from 1 2 3 show ?thesis by (simp add: buildJson_def m)
qed

theorem buildJson_kind_content_tags_witness:
  "buildJson_ret [''nostk'', ''pubMessageTo'', ''hi'', ''abcd'']
     = Inr \<lparr>Kind = 1, Content = ''hi'', Tags = [[''p'', ''abcd'']]\<rparr>
   \<and> NewSubCmdKindTbl ''pubMessageTo'' = Some 1
   \<and> (2::nat) < length [''nostk'', ''pubMessageTo'', ''hi'', ''abcd'']
   \<and> map (\<lambda>i. [hd (binding NewConvArgsTagsTbl ''pubMessageTo'' i), [''nostk'', ''pubMessageTo'', ''hi'', ''abcd''] ! i])
        [3 ..< 4] = [[''p'', ''abcd'']]"
proof -
  note t = buildJson_kind_content_tags[of "''nostk''" "''abcd''" jsonMarshal
      "[''nostk'', ''pubMessageTo'', ''hi'', ''abcd'']"
      "\<lparr>Kind = 1, Content = ''hi'', Tags = [[''p'', ''abcd'']]\<rparr>"]
  from t have b: "buildJson_ret [''nostk'', ''pubMessageTo'', ''hi'', ''abcd'']
     = Inr \<lparr>Kind = 1, Content = ''hi'', Tags = [[''p'', ''abcd'']]\<rparr>" by simp
  have u: "[3 ..< 4] = [3::nat]" by (simp add: upt_conv_Cons)
  from t b show ?thesis by (simp add: u binding_3 registered_iff NewSubCmdKindTbl_def)
qed

section \<open>The publish-message command and its relay loop\<close>

lemma connects_append: "connects (xs @ ys) = connects xs @ connects ys"
  by (induction xs rule: connects.induct) simp_all

lemma events_append: "events (xs @ ys) = events xs @ events ys"
  by (induction xs rule: events.induct) simp_all

lemma connects_publishLoop: "connects (publishLoop w ev n rl) = rl"
  by (induction rl arbitrary: n) (simp_all split: option.splits)

lemma stdout_publishLoop:
  "stdout (publishLoop w ev n rl) = map (\<lambda>(i, url). relayOutcome w ev i url) (zip [n ..< n + length rl] rl)"
proof (induction rl arbitrary: n)
  case Nil
  then show ?case by simp
next
  case (Cons url rl)
  have u: "[n ..< n + length (url # rl)] = n # [Suc n ..< Suc n + length rl]"
    using upt_conv_Cons[of n "n + Suc (length rl)"] by simp
  show ?case unfolding u using Cons[of "Suc n"]
    by (simp add: relayOutcome_def split: option.splits)
qed

lemma publishes_publishLoop:
  "publishes (publishLoop w ev n rl) =
     map snd (filter (\<lambda>(i, url). nostr_RelayConnect w i url = None) (zip [n ..< n + length rl] rl))"
proof (induction rl arbitrary: n)
  case Nil
  then show ?case by simp
next
  case (Cons url rl)
  have u: "[n ..< n + length (url # rl)] = n # [Suc n ..< Suc n + length rl]"
    using upt_conv_Cons[of n "n + Suc (length rl)"] by simp
  show ?case unfolding u using Cons[of "Suc n"]
    by (simp split: option.splits)
qed

lemma events_publishLoop: "set (events (publishLoop w ev n rl)) \<subseteq> {ev}"
  by (induction rl arbitrary: n) (auto split: option.splits)

lemma getDir_quiet: "connects (fst (getDir w)) = [] \<and> events (fst (getDir w)) = [] \<and> publishes (fst (getDir w)) = []"
  by (simp add: getDir_def Let_def split: option.splits)

lemma readPrivateKey_quiet:
  "connects (fst (readPrivateKey w)) = [] \<and> events (fst (readPrivateKey w)) = []
   \<and> publishes (fst (readPrivateKey w)) = []"
  using getDir_quiet[of w]
  by (cases "getDir w") (auto simp: readPrivateKey_def Let_def split: option.splits sum.splits)

lemma readRelayList_quiet:
  "connects (fst (readRelayList w)) = [] \<and> events (fst (readRelayList w)) = []
   \<and> publishes (fst (readRelayList w)) = []"
  using getDir_quiet[of w]
  by (cases "getDir w") (auto simp: readRelayList_def Let_def split: option.splits sum.splits)

lemma getRelayList_quiet:
  "connects (fst (getRelayList w rl)) = [] \<and> events (fst (getRelayList w rl)) = []
   \<and> publishes (fst (getRelayList w rl)) = []"
  using readRelayList_quiet[of w]
  by (cases "readRelayList w") (auto simp: getRelayList_def split: sum.splits)

lemma failWith_snd: "snd (failWith es line err) = Some err"
  by (cases err) (simp_all add: failWith_def)

lemma publishMessage_success:
  assumes "s \<noteq> []" "readPrivateKey w = (es1, Inr sk)" "nostr_GetPublicKey w sk = Inr pk"
    "getRelayList w [] = (es2, Inr rl)"
  shows "publishMessage w s =
     (es1 @ es2 @ [SignEvent (draftEvent w pk s) sk]
        @ publishLoop w (signedEvent w sk (draftEvent w pk s)) 0 rl, None)"
  using assms by (simp add: publishMessage_def draftEvent_def signedEvent_def Let_def)

lemma publishMessage_cases:
  obtains (empty) "s = []"
  | (nokey) es1 err where "s \<noteq> []" "readPrivateKey w = (es1, Inl err)"
  | (nopub) es1 sk err where "s \<noteq> []" "readPrivateKey w = (es1, Inr sk)" "nostr_GetPublicKey w sk = Inl err"
  | (norelays) es1 sk pk es2 err where "s \<noteq> []" "readPrivateKey w = (es1, Inr sk)"
      "nostr_GetPublicKey w sk = Inr pk" "getRelayList w [] = (es2, Inl err)"
  | (ok) es1 sk pk es2 rl where "s \<noteq> []" "readPrivateKey w = (es1, Inr sk)"
      "nostr_GetPublicKey w sk = Inr pk" "getRelayList w [] = (es2, Inr rl)"
proof (cases "s = []")
  case True then show ?thesis by (rule empty)
next
  case ne: False
  obtain es1 r1 where r: "readPrivateKey w = (es1, r1)" by (cases "readPrivateKey w")
  show ?thesis
  proof (cases r1)
    case (Inl err) with ne r show ?thesis using nokey by simp
  next
    case (Inr sk)
    show ?thesis
    proof (cases "nostr_GetPublicKey w sk")
      case (Inl err) with ne r Inr show ?thesis using nopub by simp
    next
      case pk: (Inr pk)
      obtain es2 r2 where g: "getRelayList w [] = (es2, r2)" by (cases "getRelayList w []")
      show ?thesis
      proof (cases r2)
        case (Inl err) with ne r Inr pk g show ?thesis using norelays by simp
      next
        case rl: (Inr rl) with ne r Inr pk g show ?thesis using ok by simp
      qed
    qed
  qed
qed

lemma quiet_failWith:
  "connects es = [] \<Longrightarrow> events es = [] \<Longrightarrow>
   connects (fst (failWith es line err)) = [] \<and> events (fst (failWith es line err)) = []"
  by (cases err) (simp_all add: failWith_def connects_append events_append)

lemma publishMessage_error_quiet:
  assumes "snd (publishMessage w s) \<noteq> None"
  shows "connects (fst (publishMessage w s)) = [] \<and> events (fst (publishMessage w s)) = []"
proof (cases rule: publishMessage_cases[where s=s and w=w])
  case empty
  then show ?thesis by (simp add: publishMessage_def)
next
  case (nokey es1 err)
  from readPrivateKey_quiet[of w] nokey have "connects es1 = []" "events es1 = []" by simp_all
  from quiet_failWith[OF this] nokey show ?thesis by (simp add: publishMessage_def)
next
  case (nopub es1 sk err)
  from readPrivateKey_quiet[of w] nopub have "connects es1 = []" "events es1 = []" by simp_all
  with nopub show ?thesis by (simp add: publishMessage_def)
next
  case (norelays es1 sk pk es2 err)
  from readPrivateKey_quiet[of w] norelays have "connects es1 = []" "events es1 = []" by simp_all
  moreover from getRelayList_quiet[of w "[]"] norelays have "connects es2 = []" "events es2 = []" by simp_all
  ultimately have "connects (es1 @ es2) = []" "events (es1 @ es2) = []"
    by (simp_all add: connects_append events_append)
  from quiet_failWith[OF this] norelays show ?thesis by (simp add: publishMessage_def)
next
  case (ok es1 sk pk es2 rl)
  from publishMessage_success[OF ok] assms show ?thesis by simp
qed

lemma publishMessage_nokey:
  "s \<noteq> [] \<Longrightarrow> snd (readPrivateKey w) = Inl err \<Longrightarrow> snd (publishMessage w s) = Some err"
  by (cases "readPrivateKey w") (simp add: publishMessage_def failWith_snd)

lemma publishMessage_nopub:
  "s \<noteq> [] \<Longrightarrow> snd (readPrivateKey w) = Inr sk \<Longrightarrow> nostr_GetPublicKey w sk = Inl err \<Longrightarrow>
   snd (publishMessage w s) = Some (Error err)"
  by (cases "readPrivateKey w") (simp add: publishMessage_def)

lemma publishMessage_norelays:
  "s \<noteq> [] \<Longrightarrow> snd (readPrivateKey w) = Inr sk \<Longrightarrow> nostr_GetPublicKey w sk = Inr pk \<Longrightarrow>
   snd (getRelayList w []) = Inl err \<Longrightarrow> snd (publishMessage w s) = Some err"
  by (cases "readPrivateKey w"; cases "getRelayList w []") (simp add: publishMessage_def failWith_snd)

lemma publishMessage_ok:
  assumes "s \<noteq> []" "snd (readPrivateKey w) = Inr sk" "nostr_GetPublicKey w sk = Inr pk"
    "snd (getRelayList w []) = Inr rl"
  shows "snd (publishMessage w s) = None \<and> connects (fst (publishMessage w s)) = rl
       \<and> stdout (publishLoop w (signedEvent w sk (draftEvent w pk s)) 0 rl)
           = map (\<lambda>(i, url). relayOutcome w (signedEvent w sk (draftEvent w pk s)) i url) (zip [0 ..< length rl] rl)
       \<and> events (fst (publishMessage w s)) =
           draftEvent w pk s # events (publishLoop w (signedEvent w sk (draftEvent w pk s)) 0 rl)"
proof -
  obtain es1 where r: "readPrivateKey w = (es1, Inr sk)" using assms(2) by (cases "readPrivateKey w") simp
  obtain es2 where g: "getRelayList w [] = (es2, Inr rl)" using assms(4) by (cases "getRelayList w []") simp
  from readPrivateKey_quiet[of w] r have q1: "connects es1 = []" "events es1 = []" by simp_all
  from getRelayList_quiet[of w "[]"] g have q2: "connects es2 = []" "events es2 = []" by simp_all
  from publishMessage_success[OF assms(1) r assms(3) g] q1 q2 stdout_publishLoop[of w _ 0 rl]
  show ?thesis by (simp add: connects_append events_append connects_publishLoop)
qed

lemma getDir_relays:
  "getDir (w\<lparr>nostr_RelayConnect := c, nostr_Publish := p\<rparr>) = getDir w"
  by (simp add: getDir_def Let_def split: option.splits)

lemma readPrivateKey_relays:
  "readPrivateKey (w\<lparr>nostr_RelayConnect := c, nostr_Publish := p\<rparr>) = readPrivateKey w"
  by (simp add: readPrivateKey_def getDir_relays Let_def split: prod.splits sum.splits option.splits)

lemma readRelayList_relays:
  "readRelayList (w\<lparr>nostr_RelayConnect := c, nostr_Publish := p\<rparr>) = readRelayList w"
  by (simp add: readRelayList_def getDir_relays Let_def split: prod.splits sum.splits option.splits)

lemma getRelayList_relays:
  "getRelayList (w\<lparr>nostr_RelayConnect := c, nostr_Publish := p\<rparr>) rl = getRelayList w rl"
  by (simp add: getRelayList_def readRelayList_relays split: prod.splits sum.splits)

lemmas relays_irrelevant_pre = readPrivateKey_relays getRelayList_relays

lemma relays_irrelevant:
  "snd (publishMessage (w\<lparr>nostr_RelayConnect := c, nostr_Publish := p\<rparr>) s) = snd (publishMessage w s)"
proof (cases rule: publishMessage_cases[where s=s and w=w])
  case empty
  then show ?thesis by (simp add: publishMessage_def)
next
  case (nokey es1 err)
  then show ?thesis by (simp add: publishMessage_def relays_irrelevant_pre failWith_snd)
next
  case (nopub es1 sk err)
  then show ?thesis by (simp add: publishMessage_def relays_irrelevant_pre)
next
  case (norelays es1 sk pk es2 err)
  then show ?thesis by (simp add: publishMessage_def relays_irrelevant_pre failWith_snd)
next
  case (ok es1 sk pk es2 rl)
  then show ?thesis by (simp add: publishMessage_def relays_irrelevant_pre Let_def)
qed

lemma signedEvent_fields:
  "EvTags (signedEvent w sk ev) = EvTags ev \<and> EvContent (signedEvent w sk ev) = EvContent ev
   \<and> EvKind (signedEvent w sk ev) = EvKind ev"
  by (simp add: signedEvent_def split: option.splits)

lemma publishMessage_events:
  "ev \<in> set (events (fst (publishMessage w s))) \<Longrightarrow>
   EvTags ev = [] \<and> EvContent ev = s \<and> EvKind ev = 1"
proof (cases rule: publishMessage_cases[where s=s and w=w])
  case (ok es1 sk pk es2 rl)
  assume a: "ev \<in> set (events (fst (publishMessage w s)))"
  have "snd (readPrivateKey w) = Inr sk" "snd (getRelayList w []) = Inr rl" using ok by simp_all
  from publishMessage_ok[OF ok(1) this(1) ok(3) this(2)] a
  have "ev = draftEvent w pk s \<or> ev \<in> set (events (publishLoop w (signedEvent w sk (draftEvent w pk s)) 0 rl))"
    by auto
  then have "ev = draftEvent w pk s \<or> ev = signedEvent w sk (draftEvent w pk s)"
    using events_publishLoop[of w "signedEvent w sk (draftEvent w pk s)" 0 rl] by auto
  then show ?thesis using signedEvent_fields[of w sk "draftEvent w pk s"]
    by (auto simp: draftEvent_def KindTextNote_def)
next
  case empty
  assume a: "ev \<in> set (events (fst (publishMessage w s)))"
  with empty show ?thesis by (simp add: publishMessage_def)
next
  case (nokey es1 err)
  assume a: "ev \<in> set (events (fst (publishMessage w s)))"
  have "snd (publishMessage w s) \<noteq> None" using nokey by (simp add: publishMessage_def failWith_snd)
  from publishMessage_error_quiet[OF this] a show ?thesis by simp
next
  case (nopub es1 sk err)
  assume a: "ev \<in> set (events (fst (publishMessage w s)))"
  have "snd (publishMessage w s) \<noteq> None" using nopub by (simp add: publishMessage_def)
  from publishMessage_error_quiet[OF this] a show ?thesis by simp
next
  case (norelays es1 sk pk es2 err)
  assume a: "ev \<in> set (events (fst (publishMessage w s)))"
  have "snd (publishMessage w s) \<noteq> None" using norelays by (simp add: publishMessage_def failWith_snd)
  from publishMessage_error_quiet[OF this] a show ?thesis by simp
qed

lemma nth_stdout_publishLoop:
  "i < length rl \<Longrightarrow> stdout (publishLoop w ev n rl) ! i = relayOutcome w ev (n + i) (rl ! i)"
  by (simp add: stdout_publishLoop)

text \<open>
  Claim C1. For every list of relay URLs the loop attempts a connection to each URL once,
  in list order, and never again; the event is submitted to exactly the relays whose
  connection succeeded. Each relay leaves one line on the standard output, its own
  outcome: the line at position \<open>i\<close> is determined by the answers to the attempt at relay
  \<open>i\<close> alone, whatever happened at the others, and the loop over a list followed by
  another list is the loop over the first followed by the loop over the second.
\<close>

theorem publishLoop_attempts_every_relay_once:
  "connects (publishLoop w ev n rl) = rl
   \<and> publishes (publishLoop w ev n rl) =
       map snd (filter (\<lambda>(i, url). nostr_RelayConnect w i url = None) (zip [n ..< n + length rl] rl))
   \<and> stdout (publishLoop w ev n rl) =
       map (\<lambda>(i, url). relayOutcome w ev i url) (zip [n ..< n + length rl] rl)
   \<and> length (stdout (publishLoop w ev n rl)) = length rl
   \<and> (\<forall>i. i < length rl \<longrightarrow>
         stdout (publishLoop w ev n rl) ! i = relayOutcome w ev (n + i) (rl ! i))
   \<and> publishLoop w ev n (rl @ rl') = publishLoop w ev n rl @ publishLoop w ev (n + length rl) rl'"
proof -
  have a: "publishLoop w ev n (rl @ rl') = publishLoop w ev n rl @ publishLoop w ev (n + length rl) rl'"
    by (induction rl arbitrary: n) (simp_all split: option.splits)
  have l: "length (stdout (publishLoop w ev n rl)) = length rl"
    by (simp add: stdout_publishLoop)
  from a l show ?thesis
    using connects_publishLoop[of w ev n rl] publishes_publishLoop[of w ev n rl]
      stdout_publishLoop[of w ev n rl] nth_stdout_publishLoop[of _ rl w ev n]
    by simp
qed

theorem publishLoop_attempts_every_relay_once_witness:
  "connects (publishLoop exampleWorld (draftEvent exampleWorld ''02'' ''hello'') 0
      [''wss://a'', ''wss://b'', ''wss://c'']) = [''wss://a'', ''wss://b'', ''wss://c'']
   \<and> publishes (publishLoop exampleWorld (draftEvent exampleWorld ''02'' ''hello'') 0
      [''wss://a'', ''wss://b'', ''wss://c'']) = [''wss://a'', ''wss://c'']
   \<and> stdout (publishLoop exampleWorld (draftEvent exampleWorld ''02'' ''hello'') 0
      [''wss://a'', ''wss://b'', ''wss://c''])
      = [''published to wss://a'' @ [newline], ''dial failed'' @ [newline], ''rejected'' @ [newline]]
   \<and> (2::nat) < length [''wss://a'', ''wss://b'', ''wss://c'']
   \<and> stdout (publishLoop exampleWorld (draftEvent exampleWorld ''02'' ''hello'') 0
      [''wss://a'', ''wss://b'', ''wss://c'']) ! 2
      = relayOutcome exampleWorld (draftEvent exampleWorld ''02'' ''hello'') 2 ''wss://c''"
proof -
  have u: "[0 ..< 3] = [0, 1, 2::nat]" by (simp add: upt_conv_Cons)
  note t = publishLoop_attempts_every_relay_once[of exampleWorld
      "draftEvent exampleWorld ''02'' ''hello''" 0 "[''wss://a'', ''wss://b'', ''wss://c'']" "[]"]
  from t have "\<forall>i. i < length [''wss://a'', ''wss://b'', ''wss://c''] \<longrightarrow>
         stdout (publishLoop exampleWorld (draftEvent exampleWorld ''02'' ''hello'') 0
           [''wss://a'', ''wss://b'', ''wss://c'']) ! i
         = relayOutcome exampleWorld (draftEvent exampleWorld ''02'' ''hello'') (0 + i)
             ([''wss://a'', ''wss://b'', ''wss://c''] ! i)" by blast
  then have n: "stdout (publishLoop exampleWorld (draftEvent exampleWorld ''02'' ''hello'') 0
      [''wss://a'', ''wss://b'', ''wss://c'']) ! 2
      = relayOutcome exampleWorld (draftEvent exampleWorld ''02'' ''hello'') 2 ''wss://c''"
    by (simp del: publishLoop.simps)
  from t n show ?thesis
    by (simp add: u relayOutcome_def exampleWorld_def del: publishLoop.simps)
qed

lemmas world_eval = readPrivateKey_def readRelayList_def getRelayList_def getDir_def
  exampleWorld_def secretDir_def hsec_def relays_def newline_def Let_def

text \<open>
  Claim C8. A key file that is there and cannot be read, or is empty, makes
  \<^verbatim>\<open>readPrivateKey\<close> panic at \<^verbatim>\<open>k[0]\<close>: \<^verbatim>\<open>publishMessage\<close> returns no error, prints nothing, and
  the program leaves with status 2, where the claim asks for a returned terminal error.
  A missing key file, and a relay file that cannot be read, do give the error: the line on
  the standard output, \<^verbatim>\<open>log.Fatal\<close> and status 1.
\<close>

theorem publishMessage_unreadable_key_panics:
  "readPrivateKey unreadableKeyWorld
     = ([], Inl (Panic ''runtime error: index out of range [0] with length 0''))
   \<and> publishMessage unreadableKeyWorld ''hello''
     = ([], Some (Panic ''runtime error: index out of range [0] with length 0''))
   \<and> main unreadableKeyWorld (\<lambda>cmd. ([], None)) [''nostk'', ''pubMessage'', ''hello'']
     = ([], Exited 2)
   \<and> main emptyKeyWorld (\<lambda>cmd. ([], None)) [''nostk'', ''pubMessage'', ''hello'']
     = ([], Exited 2)
   \<and> main missingKeyWorld (\<lambda>cmd. ([], None)) [''nostk'', ''pubMessage'', ''hello'']
     = ([Stdout (''Nothing key pair. Make key pair.'' @ [newline]),
         LogFatal ''stat /home/u/.nostk/.hsec: no such file or directory''], Exited 1)
   \<and> readRelayList unreadableRelaysWorld
     = ([], Inl (Error ''open /home/u/.nostk/relays.json: permission denied''))
   \<and> main unreadableRelaysWorld (\<lambda>cmd. ([], None)) [''nostk'', ''pubMessage'', ''hello'']
     = ([Stdout (''Nothing relay list. Make a relay list.'' @ [newline]),
         LogFatal ''open /home/u/.nostk/relays.json: permission denied''], Exited 1)"
proof -
  have k: "readPrivateKey unreadableKeyWorld
     = ([], Inl (Panic ''runtime error: index out of range [0] with length 0''))"
    by (simp add: unreadableKeyWorld_def world_eval)
  have e: "readPrivateKey emptyKeyWorld
     = ([], Inl (Panic ''runtime error: index out of range [0] with length 0''))"
    by (simp add: emptyKeyWorld_def world_eval)
  have m: "readPrivateKey missingKeyWorld
     = ([], Inl (Error ''stat /home/u/.nostk/.hsec: no such file or directory''))"
    by (simp add: missingKeyWorld_def world_eval)
  have r: "readRelayList unreadableRelaysWorld
     = ([], Inl (Error ''open /home/u/.nostk/relays.json: permission denied''))"
    by (simp add: unreadableRelaysWorld_def world_eval)
  have rk: "readPrivateKey unreadableRelaysWorld = ([], Inr ''01'')"
    by (simp add: unreadableRelaysWorld_def world_eval)
  have g: "nostr_GetPublicKey unreadableRelaysWorld ''01'' = Inr ''02''"
    by (simp add: unreadableRelaysWorld_def exampleWorld_def)
  have pk: "publishMessage unreadableKeyWorld ''hello''
     = ([], Some (Panic ''runtime error: index out of range [0] with length 0''))"
    by (simp add: publishMessage_def k failWith_def)
  have pe: "publishMessage emptyKeyWorld ''hello''
     = ([], Some (Panic ''runtime error: index out of range [0] with length 0''))"
    by (simp add: publishMessage_def e failWith_def)
  have pm: "publishMessage missingKeyWorld ''hello''
     = ([Stdout (''Nothing key pair. Make key pair.'' @ [newline])],
        Some (Error ''stat /home/u/.nostk/.hsec: no such file or directory''))"
    by (simp add: publishMessage_def m failWith_def)
  have pr: "publishMessage unreadableRelaysWorld ''hello''
     = ([Stdout (''Nothing relay list. Make a relay list.'' @ [newline])],
        Some (Error ''open /home/u/.nostk/relays.json: permission denied''))"
    by (simp add: publishMessage_def rk g getRelayList_def r failWith_def)
  show ?thesis
    by (simp add: k r pk main_def fatal_def pe pm pr)
qed

text \<open>
  Claim C9. Every event that \<^verbatim>\<open>publishMessage\<close> hands to the signer or submits to a relay
  has no tags, the content as given and the text-note kind. On a successful pre-flight
  these are the composed event and, per submission, the signed one. Neither the result
  nor the relays attempted depend on what the non-empty content is, so nothing in the
  content (a hashtag, a private key) changes what is published.
\<close>

theorem publishMessage_sends_no_tags:
  "(\<forall>ev\<in>set (events (fst (publishMessage w s))).
       EvTags ev = [] \<and> EvContent ev = s \<and> EvKind ev = 1)
   \<and> (s \<noteq> [] \<longrightarrow> snd (readPrivateKey w) = Inr sk \<longrightarrow> nostr_GetPublicKey w sk = Inr pk \<longrightarrow>
        snd (getRelayList w []) = Inr rl \<longrightarrow>
        events (fst (publishMessage w s)) =
          draftEvent w pk s # events (publishLoop w (signedEvent w sk (draftEvent w pk s)) 0 rl)
        \<and> EvTags (draftEvent w pk s) = [] \<and> EvTags (signedEvent w sk (draftEvent w pk s)) = [])
   \<and> (s \<noteq> [] \<longrightarrow> s' \<noteq> [] \<longrightarrow>
        snd (publishMessage w s') = snd (publishMessage w s)
        \<and> connects (fst (publishMessage w s')) = connects (fst (publishMessage w s)))"
proof -
  have 1: "\<forall>ev\<in>set (events (fst (publishMessage w s))).
       EvTags ev = [] \<and> EvContent ev = s \<and> EvKind ev = 1"
    using publishMessage_events[of _ w s] by blast
  have 2: "s \<noteq> [] \<longrightarrow> snd (readPrivateKey w) = Inr sk \<longrightarrow> nostr_GetPublicKey w sk = Inr pk \<longrightarrow>
        snd (getRelayList w []) = Inr rl \<longrightarrow>
        events (fst (publishMessage w s)) =
          draftEvent w pk s # events (publishLoop w (signedEvent w sk (draftEvent w pk s)) 0 rl)
        \<and> EvTags (draftEvent w pk s) = [] \<and> EvTags (signedEvent w sk (draftEvent w pk s)) = []"
    using publishMessage_ok[of s w sk pk rl] signedEvent_fields[of w sk "draftEvent w pk s"]
    by (simp add: draftEvent_def)
  have 3: "s \<noteq> [] \<longrightarrow> s' \<noteq> [] \<longrightarrow>
        snd (publishMessage w s') = snd (publishMessage w s)
        \<and> connects (fst (publishMessage w s')) = connects (fst (publishMessage w s))"
  proof (intro impI)
    assume ne: "s \<noteq> []" "s' \<noteq> []"
    show "snd (publishMessage w s') = snd (publishMessage w s)
        \<and> connects (fst (publishMessage w s')) = connects (fst (publishMessage w s))"
    proof (cases rule: publishMessage_cases[where s=s and w=w])
      case empty
      with ne show ?thesis by simp
    next
      case (nokey es1 err)
      have a: "snd (publishMessage w s) = Some err" "snd (publishMessage w s') = Some err"
        using nokey ne by (simp_all add: publishMessage_def failWith_snd)
      then have "snd (publishMessage w s) \<noteq> None" "snd (publishMessage w s') \<noteq> None" by simp_all
      from publishMessage_error_quiet[OF this(1)] publishMessage_error_quiet[OF this(2)] a
      show ?thesis by simp
    next
      case (nopub es1 sk err)
      have a: "snd (publishMessage w s) = Some (Error err)" "snd (publishMessage w s') = Some (Error err)"
        using nopub ne by (simp_all add: publishMessage_def)
      then have "snd (publishMessage w s) \<noteq> None" "snd (publishMessage w s') \<noteq> None" by simp_all
      from publishMessage_error_quiet[OF this(1)] publishMessage_error_quiet[OF this(2)] a
      show ?thesis by simp
    next
      case (norelays es1 sk pk es2 err)
      have a: "snd (publishMessage w s) = Some err" "snd (publishMessage w s') = Some err"
        using norelays ne by (simp_all add: publishMessage_def failWith_snd)
      then have "snd (publishMessage w s) \<noteq> None" "snd (publishMessage w s') \<noteq> None" by simp_all
      from publishMessage_error_quiet[OF this(1)] publishMessage_error_quiet[OF this(2)] a
      show ?thesis by simp
    next
      case (ok es1 sk pk es2 rl)
      have h: "snd (readPrivateKey w) = Inr sk" "snd (getRelayList w []) = Inr rl" using ok by simp_all
      from publishMessage_ok[OF ne(1) h(1) ok(3) h(2)] publishMessage_ok[OF ne(2) h(1) ok(3) h(2)]
      show ?thesis by simp
    qed
  qed
  from 1 2 3 show ?thesis by blast
qed

theorem publishMessage_sends_no_tags_witness:
  "''hello #world'' \<noteq> [] \<and> snd (readPrivateKey exampleWorld) = Inr ''01''
   \<and> nostr_GetPublicKey exampleWorld ''01'' = Inr ''02''
   \<and> snd (getRelayList exampleWorld []) = Inr [''wss://a'', ''wss://b'', ''wss://c'']
   \<and> draftEvent exampleWorld ''02'' ''hello #world''
        \<in> set (events (fst (publishMessage exampleWorld ''hello #world'')))
   \<and> EvTags (draftEvent exampleWorld ''02'' ''hello #world'') = []
   \<and> EvContent (draftEvent exampleWorld ''02'' ''hello #world'') = ''hello #world''
   \<and> events (fst (publishMessage exampleWorld ''hello #world'')) =
       [draftEvent exampleWorld ''02'' ''hello #world'',
        signedEvent exampleWorld ''01'' (draftEvent exampleWorld ''02'' ''hello #world''),
        signedEvent exampleWorld ''01'' (draftEvent exampleWorld ''02'' ''hello #world'')]
   \<and> EvTags (signedEvent exampleWorld ''01'' (draftEvent exampleWorld ''02'' ''hello #world'')) = []"
proof -
  have k: "snd (readPrivateKey exampleWorld) = Inr ''01''"
    by (simp add: readPrivateKey_def getDir_def exampleWorld_def secretDir_def hsec_def newline_def Let_def)
  have g: "nostr_GetPublicKey exampleWorld ''01'' = Inr ''02''"
    by (simp add: exampleWorld_def)
  have r: "snd (getRelayList exampleWorld []) = Inr [''wss://a'', ''wss://b'', ''wss://c'']"
    by (simp add: getRelayList_def readRelayList_def getDir_def exampleWorld_def secretDir_def
        relays_def newline_def Let_def)
  have l: "events (publishLoop exampleWorld ev 0 [''wss://a'', ''wss://b'', ''wss://c'']) = [ev, ev]" for ev
    by (simp add: exampleWorld_def)
  note t = publishMessage_sends_no_tags[where w = exampleWorld and s = "''hello #world''"
      and sk = "''01''" and pk = "''02''" and rl = "[''wss://a'', ''wss://b'', ''wss://c'']"]
  from t k g r have e: "events (fst (publishMessage exampleWorld ''hello #world'')) =
          draftEvent exampleWorld ''02'' ''hello #world''
            # events (publishLoop exampleWorld
                 (signedEvent exampleWorld ''01'' (draftEvent exampleWorld ''02'' ''hello #world'')) 0
                 [''wss://a'', ''wss://b'', ''wss://c''])
        \<and> EvTags (draftEvent exampleWorld ''02'' ''hello #world'') = []
        \<and> EvTags (signedEvent exampleWorld ''01'' (draftEvent exampleWorld ''02'' ''hello #world'')) = []"
    by simp
  then have m: "draftEvent exampleWorld ''02'' ''hello #world''
        \<in> set (events (fst (publishMessage exampleWorld ''hello #world'')))" by simp
  with t have "EvContent (draftEvent exampleWorld ''02'' ''hello #world'') = ''hello #world''" by blast
  with e m k g r show ?thesis by (simp add: l del: publishLoop.simps)
qed

section \<open>The content scanner\<close>

subsection \<open>Runes and the patterns of the leak detector\<close>

lemma byte_eq_iff: "(byte c = byte d) = (c = d)"
  by (simp add: byte_def)

lemma decodeRune_ascii: "byte c < 128 \<Longrightarrow> decodeRune (c # cs) = (byte c, 1)"
  by (simp add: decodeRune.simps)

lemma mod32: "194 \<le> (x::nat) \<Longrightarrow> x < 224 \<Longrightarrow> 2 \<le> x mod 32"
  by presburger

lemma mod16: "225 \<le> (x::nat) \<Longrightarrow> x < 240 \<Longrightarrow> 1 \<le> x mod 16"
  by presburger

lemma mod8: "241 \<le> (x::nat) \<Longrightarrow> x \<le> 244 \<Longrightarrow> 1 \<le> x mod 8"
  by presburger

lemma mod64a: "160 \<le> (y::nat) \<Longrightarrow> y \<le> 191 \<Longrightarrow> 32 \<le> y mod 64"
  by presburger

lemma mod64b: "144 \<le> (y::nat) \<Longrightarrow> y \<le> 191 \<Longrightarrow> 16 \<le> y mod 64"
  by presburger

lemma two_bytes: "194 \<le> (x::nat) \<Longrightarrow> x < 224 \<Longrightarrow> 128 \<le> x mod 32 * 64 + y"
  using mod32[of x] by simp

lemma three_bytes:
  assumes "224 \<le> (x::nat)" "x < 240" "acceptLo x \<le> y" "y \<le> acceptHi x"
  shows "128 \<le> x mod 16 * 4096 + y mod 64 * 64 + z"
proof (cases "x = 224")
  case True
  with assms have "32 \<le> y mod 64" by (intro mod64a) (simp_all add: acceptLo_def acceptHi_def)
  then show ?thesis by simp
next
  case False
  with assms have "1 \<le> x mod 16" by (intro mod16) simp_all
  then show ?thesis by simp
qed

lemma four_bytes:
  assumes "240 \<le> (x::nat)" "x \<le> 244" "acceptLo x \<le> y" "y \<le> acceptHi x"
  shows "128 \<le> x mod 8 * 262144 + y mod 64 * 4096 + z"
proof (cases "x = 240")
  case True
  with assms have "16 \<le> y mod 64" by (intro mod64b) (simp_all add: acceptLo_def acceptHi_def)
  then show ?thesis by simp
next
  case False
  with assms have "1 \<le> x mod 8" by (intro mod8) simp_all
  then show ?thesis by simp
qed

lemma decodeRune_nonascii:
  assumes "128 \<le> byte c"
  shows "128 \<le> fst (decodeRune (c # cs))"
proof -
  consider "byte c < 194 \<or> 244 < byte c" | "194 \<le> byte c" "byte c < 224"
    | "224 \<le> byte c" "byte c < 240" | "240 \<le> byte c" "byte c \<le> 244"
    by linarith
  then show ?thesis
  proof cases
    case 1
    with assms show ?thesis by (auto simp: decodeRune.simps RuneError_def)
  next
    case 2
    with assms show ?thesis
      by (auto simp: decodeRune.simps Let_def RuneError_def two_bytes split: list.splits)
  next
    case 3
    with assms show ?thesis
      by (auto simp: decodeRune.simps Let_def RuneError_def add.assoc intro!: three_bytes[simplified add.assoc] split: list.splits)
  next
    case 4
    with assms show ?thesis
      by (auto simp: decodeRune.simps Let_def RuneError_def add.assoc intro!: four_bytes[simplified add.assoc] split: list.splits)
  qed
qed

lemma decodeRune_width_le: "s \<noteq> [] \<Longrightarrow> 1 \<le> snd (decodeRune s) \<and> snd (decodeRune s) \<le> length s"
  by (cases s) (auto simp: decodeRune.simps Let_def split: list.splits)

lemma decodeRune_cont:
  "0 < i \<Longrightarrow> i < snd (decodeRune s) \<Longrightarrow> 128 \<le> byte (s ! i)"
proof (cases s)
  case Nil
  assume "i < snd (decodeRune s)" with Nil show ?thesis by (simp add: decodeRune.simps)
next
  case (Cons c cs)
  assume i: "0 < i" "i < snd (decodeRune s)"
  have lo: "128 \<le> acceptLo x" for x by (simp add: acceptLo_def)
  from i obtain j where j: "i = Suc j" by (cases i) auto
  from i(2) show ?thesis unfolding Cons j
    using lo[of "byte c"]
    by (auto simp: decodeRune.simps Let_def cont_def less_Suc_eq nth_Cons' split: list.splits if_splits)
qed

lemma cls_single:
  "k < 128 \<Longrightarrow>
   matchRe (Cls False [Single k]) b s = (if s \<noteq> [] \<and> byte (hd s) = k then [tl s] else [])"
proof (cases s)
  case Nil then show ?thesis by (simp add: matchRe.simps)
next
  case (Cons c cs)
  assume k: "k < 128"
  show ?thesis
  proof (cases "byte c < 128")
    case True
    then show ?thesis using Cons by (simp add: matchRe.simps inClass_def decodeRune_ascii)
  next
    case False
    then have "128 \<le> fst (decodeRune (c # cs))" by (intro decodeRune_nonascii) simp
    with False k show ?thesis using Cons by (simp add: matchRe.simps inClass_def)
  qed
qed

lemma cls_alnum:
  "matchRe (Cls False alnum) b s = (if s \<noteq> [] \<and> alnumChar (hd s) then [tl s] else [])"
proof (cases s)
  case Nil then show ?thesis by (simp add: matchRe.simps)
next
  case (Cons c cs)
  have al: "inClass False alnum r = ((97 \<le> r \<and> r \<le> 122) \<or> (65 \<le> r \<and> r \<le> 90) \<or> (48 \<le> r \<and> r \<le> 57))" for r
    by (auto simp: inClass_def alnum_def byte_def)
  show ?thesis
  proof (cases "byte c < 128")
    case True
    then have "decodeRune (c # cs) = (byte c, 1)" by (rule decodeRune_ascii)
    then show ?thesis using Cons by (simp add: matchRe.simps al alnumChar_def)
  next
    case False
    then have "128 \<le> fst (decodeRune (c # cs))" by (intro decodeRune_nonascii) simp
    then have "\<not> inClass False alnum (fst (decodeRune (c # cs)))" by (simp add: al)
    moreover have "\<not> alnumChar c" using False by (simp add: alnumChar_def)
    ultimately show ?thesis using Cons by (simp add: matchRe.simps)
  qed
qed

lemma repeat_alnum:
  "matchRe (Repeat n (Cls False alnum)) b s =
     (if n \<le> length s \<and> list_all alnumChar (take n s) then [drop n s] else [])"
proof (induction n arbitrary: b s)
  case 0
  then show ?case by (simp add: matchRe.simps)
next
  case (Suc n)
  show ?case
  proof (cases s)
    case Nil
    then show ?thesis by (simp add: matchRe.simps(8) cls_alnum)
  next
    case (Cons c cs)
    show ?thesis
    proof (cases "alnumChar c")
      case True
      then have "matchRe (Cls False alnum) b s = [cs]" using Cons by (simp add: cls_alnum)
      then show ?thesis using Cons True Suc[of _ cs] by (simp add: matchRe.simps(8))
    next
      case False
      then have "matchRe (Cls False alnum) b s = []" using Cons by (simp add: cls_alnum)
      then show ?thesis using Cons False by (simp add: matchRe.simps(3) matchRe.simps(8))
    qed
  qed
qed

lemma lit_ascii:
  "p \<noteq> [] \<Longrightarrow> list_all (\<lambda>c. byte c < 128) p \<Longrightarrow>
   matchRe (lit p) b s = (if take (length p) s = p then [drop (length p) s] else [])"
proof (induction p arbitrary: b s rule: lit.induct)
  case 1
  then show ?case by simp
next
  case (2 c)
  then have k: "byte c < 128" by simp
  show ?case
  proof (cases s)
    case Nil then show ?thesis by (simp add: cls_single[OF k])
  next
    case (Cons d ds)
    then show ?thesis by (simp add: cls_single[OF k] byte_eq_iff)
  qed
next
  case (3 c c' cs)
  then have k: "byte c < 128" and r: "list_all (\<lambda>c. byte c < 128) (c' # cs)" by simp_all
  note ih = "3.IH"[OF _ r, simplified]
  show ?case
  proof (cases s)
    case Nil then show ?thesis by (simp add: matchRe.simps(3) cls_single[OF k])
  next
    case (Cons d ds)
    show ?thesis
    proof (cases "d = c")
      case True
      then have "matchRe (Cls False [Single (byte c)]) b s = [ds]"
        using Cons by (simp add: cls_single[OF k])
      then show ?thesis using Cons True ih[of _ ds] by (simp add: matchRe.simps(3))
    next
      case False
      then have "matchRe (Cls False [Single (byte c)]) b s = []"
        using Cons by (simp add: cls_single[OF k] byte_eq_iff)
      then show ?thesis using Cons False by (simp add: matchRe.simps(3) matchRe.simps(8))
    qed
  qed
qed

lemma lit_nsec1:
  "matchRe (lit ''nsec1'') b s = (if take 5 s = ''nsec1'' then [drop 5 s] else [])"
proof -
  have l: "length ''nsec1'' = 5" by simp
  have ne: "''nsec1'' \<noteq> []" by simp
  have a: "list_all (\<lambda>c. byte c < 128) ''nsec1''" by (simp add: byte_def)
  show ?thesis using lit_ascii[OF ne a, of b s] by (simp only: l)
qed

declare lit.simps [simp del]

lemma nsecPattern_match:
  "matchRe nsecPattern b s = (if tokenAt s then [drop 63 s] else [])"
proof (cases "take 5 s = ''nsec1''")
  case True
  then have "matchRe (lit ''nsec1'') b s = [drop 5 s]" by (simp add: lit_nsec1)
  then have "matchRe nsecPattern b s =
      (if 58 \<le> length (drop 5 s) \<and> list_all alnumChar (take 58 (drop 5 s))
       then [drop 58 (drop 5 s)] else [])"
    by (simp add: nsecPattern_def matchRe.simps(3) repeat_alnum)
  moreover have "(58 \<le> length (drop 5 s)) = (63 \<le> length s)" by auto
  ultimately show ?thesis using True by (simp add: tokenAt_def)
next
  case False
  then have "matchRe (lit ''nsec1'') b s = []" by (simp add: lit_nsec1)
  then have "matchRe nsecPattern b s = []"
    by (simp add: nsecPattern_def matchRe.simps(3))
  then show ?thesis using False by (simp add: tokenAt_def)
qed

lemma findAll_nsec:
  "findAll nsecPattern b adj s =
     (if tokenAt s then take 63 s # findAll nsecPattern False True (drop 63 s)
      else if s = [] then []
      else findAll nsecPattern False False (drop (snd (decodeRune s)) s))"
proof (cases "tokenAt s")
  case True
  then have "63 \<le> length s" by (simp add: tokenAt_def)
  then have "s \<noteq> []" "length (drop 63 s) < length s" "length s - (length s - 63) = 63" by auto
  then show ?thesis using True
    by (subst findAll.simps) (simp add: nsecPattern_match)
next
  case False
  then show ?thesis
    by (subst findAll.simps) (simp add: nsecPattern_match)
qed

lemma occursIn_Cons:
  "occursIn ''nsec1'' (c # cs) = (take 5 (c # cs) = ''nsec1'' \<or> occursIn ''nsec1'' cs)"
proof -
  have "length ''nsec1'' = 5" by simp
  then show ?thesis by (simp only: occursIn.simps)
qed

declare occursIn.simps(2) [simp del]

declare occursIn_Cons [simp]

lemma take5_n: "take 5 (c # cs) = ''nsec1'' \<Longrightarrow> c = CHR ''n''"
  by (simp add: take_Cons')

lemma occursIn_head: "take 5 s = ''nsec1'' \<Longrightarrow> occursIn ''nsec1'' s"
  by (cases s) simp_all

lemma occursIn_drop: "occursIn ''nsec1'' (drop k s) \<Longrightarrow> occursIn ''nsec1'' s"
proof (induction s arbitrary: k)
  case Nil
  then show ?case by simp
next
  case (Cons c cs)
  show ?case
  proof (cases k)
    case 0
    with Cons.prems show ?thesis by simp
  next
    case (Suc j)
    with Cons.prems have "occursIn ''nsec1'' (drop j cs)" by simp
    then have "occursIn ''nsec1'' cs" by (rule Cons.IH)
    then show ?thesis by simp
  qed
qed

lemma occursIn_skip:
  "occursIn ''nsec1'' s \<Longrightarrow> k \<le> length s \<Longrightarrow> \<forall>i<k. 128 \<le> byte (s ! i) \<Longrightarrow>
   occursIn ''nsec1'' (drop k s)"
proof (induction k arbitrary: s)
  case 0
  then show ?case by simp
next
  case (Suc k)
  from Suc.prems obtain c cs where s: "s = c # cs" by (cases s) auto
  from Suc.prems s have "128 \<le> byte c" by auto
  then have "c \<noteq> CHR ''n''" by (auto simp: byte_def)
  then have "take 5 s \<noteq> ''nsec1''" using s take5_n[of c cs] by blast
  with Suc.prems(1) s have o: "occursIn ''nsec1'' cs" by auto
  have "\<forall>i<k. 128 \<le> byte (cs ! i)"
  proof (intro allI impI)
    fix i assume "i < k"
    then have "Suc i < Suc k" by simp
    with Suc.prems(3) have "128 \<le> byte (s ! Suc i)" by blast
    then show "128 \<le> byte (cs ! i)" using s by simp
  qed
  with Suc.IH[OF o] Suc.prems(2) s show ?case by simp
qed

lemma nsec1Pattern_match:
  "matchRe nsec1Pattern b s = (if take 5 s = ''nsec1'' then [drop 5 s] else [])"
  by (simp add: nsec1Pattern_def lit_nsec1)

lemma matchAnywhere_nsec1: "matchAnywhere nsec1Pattern b s = occursIn ''nsec1'' s"
proof (induction s arbitrary: b rule: length_induct)
  case (1 s)
  show ?case
  proof (cases "take 5 s = ''nsec1''")
    case True
    then show ?thesis
      by (subst matchAnywhere.simps) (simp add: nsec1Pattern_match occursIn_head)
  next
    case False
    show ?thesis
    proof (cases "s = []")
      case True
      then show ?thesis by (subst matchAnywhere.simps) (simp add: nsec1Pattern_match)
    next
      case ne: False
      let ?w = "snd (decodeRune s)"
      from decodeRune_width_le[OF ne] have w: "1 \<le> ?w" "?w \<le> length s" by simp_all
      then have "length (drop ?w s) < length s" using ne by simp
      with 1 have ih: "matchAnywhere nsec1Pattern False (drop ?w s) = occursIn ''nsec1'' (drop ?w s)"
        by blast
      have m: "matchAnywhere nsec1Pattern b s = matchAnywhere nsec1Pattern False (drop ?w s)"
        using False ne by (subst matchAnywhere.simps) (simp add: nsec1Pattern_match)
      have "occursIn ''nsec1'' (drop ?w s) = occursIn ''nsec1'' s"
      proof
        assume "occursIn ''nsec1'' (drop ?w s)"
        then show "occursIn ''nsec1'' s" by (rule occursIn_drop)
      next
        assume o: "occursIn ''nsec1'' s"
        from ne obtain c cs where s: "s = c # cs" by (cases s) auto
        from o False s have oc: "occursIn ''nsec1'' cs" by auto
        have "\<forall>i<?w - 1. 128 \<le> byte (cs ! i)"
        proof (intro allI impI)
          fix i assume "i < ?w - 1"
          then have "0 < Suc i" "Suc i < ?w" by simp_all
          from decodeRune_cont[OF this] show "128 \<le> byte (cs ! i)" using s by simp
        qed
        from occursIn_skip[OF oc _ this] w s have "occursIn ''nsec1'' (drop (?w - 1) cs)" by simp
        moreover have "drop ?w s = drop (?w - 1) cs" using w s by (cases ?w) simp_all
        ultimately show "occursIn ''nsec1'' (drop ?w s)" by simp
      qed
      with m ih show ?thesis by simp
    qed
  qed
qed

lemma MatchString_nsec1: "MatchString nsec1Pattern s = occursIn ''nsec1'' s"
  by (simp add: MatchString_def matchAnywhere_nsec1)

lemma containsNsec1_alt:
  "containsNsec1 text =
     list_ex (\<lambda>m. \<not> occursIn ''nsec1'' (drop 5 m)) (findAll nsecPattern True False text)"
  by (simp add: containsNsec1_def FindAllString_def MatchString_nsec1)

subsection \<open>The scan of the leak detector\<close>

lemma leak_unfold:
  "leak b adj s =
     (if tokenAt s then \<not> occursIn ''nsec1'' (drop 5 (take 63 s)) \<or> leak False True (drop 63 s)
      else if s = [] then False
      else leak False False (drop (snd (decodeRune s)) s))"
  unfolding leak_def by (subst findAll_nsec) simp

lemma tokenAt_prefix:
  assumes "isNsecToken tok"
  shows "tokenAt (tok @ post)"
proof -
  from assms have l: "length tok = 63" and t: "tokenAt tok" by (simp_all add: isNsecToken_def)
  from l have "take 58 (drop 5 (tok @ post)) = take 58 (drop 5 tok)" by simp
  with l t show ?thesis by (simp add: tokenAt_def)
qed

lemma tokenAt_head: "tokenAt s \<Longrightarrow> take 5 s = ''nsec1''"
  by (simp add: tokenAt_def)

lemma tokenAt_append: "63 \<le> length xs \<Longrightarrow> tokenAt (xs @ ys) = tokenAt xs"
  by (simp add: tokenAt_def)

lemma leak_reaches_token:
  assumes tok: "isNsecToken tok"
  shows "(\<forall>i. i \<le> length pre \<and> length pre < i + 63 \<and> tokenAt (drop i (pre @ tok)) \<longrightarrow>
              \<not> occursIn ''nsec1'' (drop 5 (take 63 (drop i (pre @ tok)))))
         \<Longrightarrow> leak b adj (pre @ tok @ post)"
proof (induction pre arbitrary: b adj rule: length_induct)
  case (1 pre)
  let ?s = "pre @ tok @ post"
  have len: "length tok = 63" using tok by (simp add: isNsecToken_def)
  have l63: "63 \<le> length (pre @ tok)" using len by simp
  have t0: "tokenAt ?s = tokenAt (pre @ tok)"
    using tokenAt_append[OF l63, of post] by simp
  have k0: "take 63 ?s = take 63 (pre @ tok)" using l63 by simp
  have shift: "\<forall>i. i \<le> length (drop k pre) \<and> length (drop k pre) < i + 63
                    \<and> tokenAt (drop i (drop k pre @ tok)) \<longrightarrow>
                  \<not> occursIn ''nsec1'' (drop 5 (take 63 (drop i (drop k pre @ tok))))"
    if "k \<le> length pre" for k
  proof (intro allI impI)
    fix i
    assume a: "i \<le> length (drop k pre) \<and> length (drop k pre) < i + 63
                 \<and> tokenAt (drop i (drop k pre @ tok))"
    have d: "drop (i + k) (pre @ tok) = drop i (drop k pre @ tok)" using that by simp
    from a that have "i + k \<le> length pre \<and> length pre < (i + k) + 63" by auto
    moreover from a have "tokenAt (drop (i + k) (pre @ tok))" unfolding d by blast
    ultimately have "\<not> occursIn ''nsec1'' (drop 5 (take 63 (drop (i + k) (pre @ tok))))"
      using "1.prems" by blast
    then show "\<not> occursIn ''nsec1'' (drop 5 (take 63 (drop i (drop k pre @ tok))))"
      unfolding d .
  qed
  have step: "leak b' adj' (drop k ?s)" if "0 < k" "k \<le> length pre" for k b' adj'
  proof -
    have "length (drop k pre) < length pre" using that by simp
    with "1.IH" shift[OF that(2)] have "leak b' adj' (drop k pre @ tok @ post)" by blast
    then show ?thesis using that by simp
  qed
  show ?case
  proof (cases "tokenAt ?s")
    case True
    show ?thesis
    proof (cases "occursIn ''nsec1'' (drop 5 (take 63 ?s))")
      case False
      with True show ?thesis by (subst leak_unfold) simp
    next
      case dirty: True
      have "63 \<le> length pre"
      proof (rule ccontr)
        assume "\<not> 63 \<le> length pre"
        then have "0 \<le> length pre \<and> length pre < 0 + 63 \<and> tokenAt (drop 0 (pre @ tok))"
          using True t0 by simp
        with "1.prems" have "\<not> occursIn ''nsec1'' (drop 5 (take 63 (drop 0 (pre @ tok))))"
          by blast
        then have "\<not> occursIn ''nsec1'' (drop 5 (take 63 (pre @ tok)))"
          unfolding drop_0 .
        with dirty show False unfolding k0 by blast
      qed
      then have "leak False True (drop 63 ?s)" by (intro step) simp_all
      then show ?thesis using True by (subst leak_unfold) simp
    qed
  next
    case False
    have ne: "pre \<noteq> []"
    proof
      assume "pre = []"
      then have "tokenAt ?s" using tok by (simp add: tokenAt_prefix)
      with False show False by simp
    qed
    let ?w = "snd (decodeRune ?s)"
    have sne: "?s \<noteq> []" using ne by simp
    from decodeRune_width_le[OF sne] have w: "1 \<le> ?w" by simp
    have "?w \<le> length pre"
    proof (rule ccontr)
      assume "\<not> ?w \<le> length pre"
      then have "0 < length pre" "length pre < ?w" using ne by simp_all
      from decodeRune_cont[OF this] have "128 \<le> byte (?s ! length pre)" .
      moreover have "?s ! length pre = tok ! 0" using len by (simp add: nth_append)
      moreover have "tok ! 0 = CHR ''n''"
      proof -
        from tok have "take 5 tok = ''nsec1''" by (simp add: isNsecToken_def tokenAt_def)
        then show ?thesis using len by (cases tok) (simp_all add: take_Cons')
      qed
      ultimately show False by (simp add: byte_def)
    qed
    with w have "leak False False (drop ?w ?s)" by (intro step) simp_all
    then show ?thesis using False sne by (subst leak_unfold) simp
  qed
qed

lemma copies_concat: "concat (replicate n ''nsec1'') = copies n"
  by (induction n) simp_all

lemma length_copies: "length (copies n) = 5 * n"
  by (induction n) simp_all

lemma copies_period:
  "take 5 (drop j (copies n)) = ''nsec1'' \<Longrightarrow> j + 10 \<le> length (copies n) \<Longrightarrow>
   take 5 (drop (j + 5) (copies n)) = ''nsec1''"
proof (induction n arbitrary: j)
  case 0
  then show ?case by simp
next
  case (Suc n)
  consider "j = 0" | "j = 1" | "j = 2" | "j = 3" | "j = 4" | "5 \<le> j" by linarith
  then show ?case
  proof cases
    case 1
    with Suc.prems(2) have "1 \<le> n" by (simp add: length_copies)
    then obtain m where "n = Suc m" by (cases n) auto
    with 1 show ?thesis by simp
  next
    case 2 with Suc.prems(1) show ?thesis by simp
  next
    case 3 with Suc.prems(1) show ?thesis by simp
  next
    case 4 with Suc.prems(1) show ?thesis by simp
  next
    case 5 with Suc.prems(1) show ?thesis by simp
  next
    case 6
    then obtain k where k: "j = k + 5" by (metis le_add_diff_inverse2)
    with Suc.prems have "take 5 (drop k (copies n)) = ''nsec1''" "k + 10 \<le> length (copies n)"
      by (simp_all add: drop_Cons')
    from Suc.IH[OF this] show ?thesis using k by (simp add: drop_Cons' add.commute)
  qed
qed

lemma no_leak_in_copies: "\<not> leak b adj (drop j (copies n))"
proof (induction "length (copies n) - j" arbitrary: j b adj rule: less_induct)
  case less
  let ?s = "drop j (copies n)"
  show ?case
  proof (cases "tokenAt ?s")
    case True
    then have l: "63 \<le> length ?s" and h: "take 5 ?s = ''nsec1''" by (simp_all add: tokenAt_def)
    from l have j: "j + 63 \<le> length (copies n)" by simp
    with h have "take 5 (drop (j + 5) (copies n)) = ''nsec1''" by (intro copies_period) simp_all
    moreover have "take 5 (drop 5 (take 63 ?s)) = take 5 (drop (j + 5) (copies n))"
      by (simp add: drop_take add.commute)
    ultimately have "occursIn ''nsec1'' (drop 5 (take 63 ?s))" by (intro occursIn_head) simp
    moreover have "\<not> leak False True (drop (j + 63) (copies n))"
      using j by (intro less) simp
    ultimately show ?thesis using True by (subst leak_unfold) (simp add: add.commute)
  next
    case False
    show ?thesis
    proof (cases "?s = []")
      case True
      with False show ?thesis by (subst leak_unfold) simp
    next
      case ne: False
      let ?w = "snd (decodeRune ?s)"
      from decodeRune_width_le[OF ne] have w: "1 \<le> ?w" by simp
      from ne have "j < length (copies n)" by simp
      with w have "\<not> leak False False (drop (j + ?w) (copies n))" by (intro less) simp
      then show ?thesis using False ne by (subst leak_unfold) (simp add: add.commute)
    qed
  qed
qed

lemma containsNsec1_leak: "containsNsec1 text = leak True False text"
  by (simp add: containsNsec1_alt leak_def)

lemmas token_eval = isNsecToken_def tokenAt_def alnumChar_def byte_def

lemma key_token: "isNsecToken ''nsec1qqqqqqqqqqqqqqqqqqqqqqqqqqqqqqqqqqqqqqqqqqqqqqqqqqqqqqqqqq''"
  by (simp add: token_eval)

lemma key_clean: "\<not> occursIn ''nsec1'' (drop 5 ''nsec1qqqqqqqqqqqqqqqqqqqqqqqqqqqqqqqqqqqqqqqqqqqqqqqqqqqqqqqqqq'')"
  by simp

lemma t1_token: "isNsecToken ''nsec1nsec1aaaaaaaaaaaaaaaaaaaaaaaaaaaaaaaaaaaaaaaaaaaaaaaaaaaaa''"
  by (simp add: token_eval)

lemma t1_not_copies: "\<not> onlyPrefixCopies ''nsec1nsec1aaaaaaaaaaaaaaaaaaaaaaaaaaaaaaaaaaaaaaaaaaaaaaaaaaaaa''"
  by (simp add: onlyPrefixCopies_def)

lemma key_not_copies: "\<not> onlyPrefixCopies ''nsec1qqqqqqqqqqqqqqqqqqqqqqqqqqqqqqqqqqqqqqqqqqqqqqqqqqqqqqqqqq''"
  by (simp add: onlyPrefixCopies_def)

lemma t1_silent: "\<not> containsNsec1 ''nsec1nsec1aaaaaaaaaaaaaaaaaaaaaaaaaaaaaaaaaaaaaaaaaaaaaaaaaaaaa''"
proof -
  have "tokenAt ''nsec1nsec1aaaaaaaaaaaaaaaaaaaaaaaaaaaaaaaaaaaaaaaaaaaaaaaaaaaaa''" using t1_token by (simp add: isNsecToken_def)
  moreover have "occursIn ''nsec1'' (drop 5 (take 63 ''nsec1nsec1aaaaaaaaaaaaaaaaaaaaaaaaaaaaaaaaaaaaaaaaaaaaaaaaaaaaa''))" by simp
  moreover have "drop 63 ''nsec1nsec1aaaaaaaaaaaaaaaaaaaaaaaaaaaaaaaaaaaaaaaaaaaaaaaaaaaaa'' = []" by simp
  moreover have "\<not> leak False True []" by (subst leak_unfold) (simp add: tokenAt_def)
  ultimately show ?thesis unfolding containsNsec1_leak by (subst leak_unfold) simp
qed

lemma short_silent: "length s < 63 \<Longrightarrow> \<not> leak b adj s"
proof (induction s arbitrary: b adj rule: length_induct)
  case (1 s)
  then have t: "\<not> tokenAt s" by (simp add: tokenAt_def)
  show ?case
  proof (cases "s = []")
    case True
    with t show ?thesis by (subst leak_unfold) simp
  next
    case False
    from decodeRune_width_le[OF False] have "length (drop (snd (decodeRune s)) s) < length s"
      using False by simp
    with 1 have "\<not> leak False False (drop (snd (decodeRune s)) s)" by simp
    with t False show ?thesis by (subst leak_unfold) simp
  qed
qed

lemma key_hidden: "\<not> containsNsec1 (''nsec1'' @ ''nsec1qqqqqqqqqqqqqqqqqqqqqqqqqqqqqqqqqqqqqqqqqqqqqqqqqqqqqqqqqq'')"
proof -
  have "tokenAt (''nsec1'' @ ''nsec1qqqqqqqqqqqqqqqqqqqqqqqqqqqqqqqqqqqqqqqqqqqqqqqqqqqqqqqqqq'')" by (simp add: token_eval)
  moreover have "occursIn ''nsec1'' (drop 5 (take 63 (''nsec1'' @ ''nsec1qqqqqqqqqqqqqqqqqqqqqqqqqqqqqqqqqqqqqqqqqqqqqqqqqqqqqqqqqq'')))" by simp
  moreover have "\<not> leak False True (drop 63 (''nsec1'' @ ''nsec1qqqqqqqqqqqqqqqqqqqqqqqqqqqqqqqqqqqqqqqqqqqqqqqqqqqqqqqqqq''))" by (rule short_silent) simp
  ultimately show ?thesis unfolding containsNsec1_leak by (subst leak_unfold) simp
qed

text \<open>
  Claim C6, amended. \<^verbatim>\<open>containsNsec1\<close> reports a leak for every content that contains a
  63-byte token, \<^verbatim>\<open>nsec1\<close> followed by 58 letters or digits, such that \<^verbatim>\<open>nsec1\<close> does not
  occur again inside the token, and such that the same holds of every 63-byte string of
  that form that begins in the 62 bytes before the token. Text before the token, the
  text \<^verbatim>\<open>nsec1\<close> included, is otherwise free. Content that consists only of copies of the
  bare prefix is not reported, whatever the number of copies.
\<close>

theorem containsNsec1_reports_reachable_token:
  "(isNsecToken tok \<longrightarrow>
      (\<forall>i. i \<le> length pre \<and> length pre < i + 63 \<and> tokenAt (drop i (pre @ tok)) \<longrightarrow>
           \<not> occursIn ''nsec1'' (drop 5 (take 63 (drop i (pre @ tok))))) \<longrightarrow>
      containsNsec1 (pre @ tok @ post))
   \<and> \<not> containsNsec1 (concat (replicate n ''nsec1''))"
proof -
  have 1: "isNsecToken tok \<longrightarrow>
      (\<forall>i. i \<le> length pre \<and> length pre < i + 63 \<and> tokenAt (drop i (pre @ tok)) \<longrightarrow>
           \<not> occursIn ''nsec1'' (drop 5 (take 63 (drop i (pre @ tok))))) \<longrightarrow>
      containsNsec1 (pre @ tok @ post)"
    unfolding containsNsec1_leak
    using leak_reaches_token[of tok pre True False post]
    by blast
  have "\<not> leak True False (drop 0 (copies n))" by (rule no_leak_in_copies)
  then have 2: "\<not> containsNsec1 (concat (replicate n ''nsec1''))"
    by (simp add: containsNsec1_leak copies_concat)
  from 1 2 show ?thesis by blast
qed

theorem containsNsec1_reports_reachable_token_witness:
  "isNsecToken ''nsec1qqqqqqqqqqqqqqqqqqqqqqqqqqqqqqqqqqqqqqqqqqqqqqqqqqqqqqqqqq''
   \<and> \<not> occursIn ''nsec1'' (drop 5 ''nsec1qqqqqqqqqqqqqqqqqqqqqqqqqqqqqqqqqqqqqqqqqqqqqqqqqqqqqqqqqq'')
   \<and> containsNsec1 (''my nsec1 key is '' @ ''nsec1qqqqqqqqqqqqqqqqqqqqqqqqqqqqqqqqqqqqqqqqqqqqqqqqqqqqqqqqqq'' @ '' ok'')
   \<and> containsNsec1 (''nsec1 '' @ ''nsec1qqqqqqqqqqqqqqqqqqqqqqqqqqqqqqqqqqqqqqqqqqqqqqqqqqqqqqqqqq'' @ [])
   \<and> \<not> containsNsec1 (concat (replicate 3 ''nsec1''))"
proof -
  have a: "\<forall>i. i \<le> length ''my nsec1 key is '' \<and> length ''my nsec1 key is '' < i + 63
              \<and> tokenAt (drop i (''my nsec1 key is '' @ ''nsec1qqqqqqqqqqqqqqqqqqqqqqqqqqqqqqqqqqqqqqqqqqqqqqqqqqqqqqqqqq'')) \<longrightarrow>
            \<not> occursIn ''nsec1'' (drop 5 (take 63 (drop i (''my nsec1 key is '' @ ''nsec1qqqqqqqqqqqqqqqqqqqqqqqqqqqqqqqqqqqqqqqqqqqqqqqqqqqqqqqqqq''))))"
  proof (intro allI impI)
    fix k :: nat
    assume h: "k \<le> length ''my nsec1 key is '' \<and> length ''my nsec1 key is '' < k + 63
              \<and> tokenAt (drop k (''my nsec1 key is '' @ ''nsec1qqqqqqqqqqqqqqqqqqqqqqqqqqqqqqqqqqqqqqqqqqqqqqqqqqqqqqqqqq''))"
    then have "k \<le> 16" by simp
    then consider "k = 16" | "k = 15" | "k = 14" | "k = 13" | "k = 12" | "k = 11" | "k = 10"
      | "k = 9" | "k = 8" | "k = 7" | "k = 6" | "k = 5" | "k = 4" | "k = 3" | "k = 2"
      | "k = 1" | "k = 0" by atomize_elim presburger
    then show "\<not> occursIn ''nsec1'' (drop 5 (take 63 (drop k (''my nsec1 key is '' @ ''nsec1qqqqqqqqqqqqqqqqqqqqqqqqqqqqqqqqqqqqqqqqqqqqqqqqqqqqqqqqqq''))))"
      using h by cases (simp_all add: token_eval)
  qed
  have b: "\<forall>i. i \<le> length ''nsec1 '' \<and> length ''nsec1 '' < i + 63
              \<and> tokenAt (drop i (''nsec1 '' @ ''nsec1qqqqqqqqqqqqqqqqqqqqqqqqqqqqqqqqqqqqqqqqqqqqqqqqqqqqqqqqqq'')) \<longrightarrow>
            \<not> occursIn ''nsec1'' (drop 5 (take 63 (drop i (''nsec1 '' @ ''nsec1qqqqqqqqqqqqqqqqqqqqqqqqqqqqqqqqqqqqqqqqqqqqqqqqqqqqqqqqqq''))))"
  proof (intro allI impI)
    fix k :: nat
    assume h: "k \<le> length ''nsec1 '' \<and> length ''nsec1 '' < k + 63
              \<and> tokenAt (drop k (''nsec1 '' @ ''nsec1qqqqqqqqqqqqqqqqqqqqqqqqqqqqqqqqqqqqqqqqqqqqqqqqqqqqqqqqqq''))"
    then have "k \<le> 6" by simp
    then consider "k = 6" | "k = 5" | "k = 4" | "k = 3" | "k = 2" | "k = 1" | "k = 0"
      by atomize_elim presburger
    then show "\<not> occursIn ''nsec1'' (drop 5 (take 63 (drop k (''nsec1 '' @ ''nsec1qqqqqqqqqqqqqqqqqqqqqqqqqqqqqqqqqqqqqqqqqqqqqqqqqqqqqqqqqq''))))"
      using h by cases (simp_all add: token_eval)
  qed
  from containsNsec1_reports_reachable_token[of "''nsec1qqqqqqqqqqqqqqqqqqqqqqqqqqqqqqqqqqqqqqqqqqqqqqqqqqqqqqqqqq''" "''my nsec1 key is ''" "'' ok''" 3]
    containsNsec1_reports_reachable_token[of "''nsec1qqqqqqqqqqqqqqqqqqqqqqqqqqqqqqqqqqqqqqqqqqqqqqqqqqqqqqqqqq''" "''nsec1 ''" "[]" 3]
    key_token key_clean a b
  show ?thesis by blast
qed

text \<open>Two contents that hold a token which is not made of copies of the prefix and are
  not reported: a token in which \<^verbatim>\<open>nsec1\<close> occurs a second time, and a key that follows
  the text \<^verbatim>\<open>nsec1\<close>, where the only match found begins five bytes before the key.\<close>

theorem containsNsec1_misses_token_counterexample:
  "isNsecToken ''nsec1nsec1aaaaaaaaaaaaaaaaaaaaaaaaaaaaaaaaaaaaaaaaaaaaaaaaaaaaa'' \<and> \<not> onlyPrefixCopies ''nsec1nsec1aaaaaaaaaaaaaaaaaaaaaaaaaaaaaaaaaaaaaaaaaaaaaaaaaaaaa'' \<and> \<not> containsNsec1 ''nsec1nsec1aaaaaaaaaaaaaaaaaaaaaaaaaaaaaaaaaaaaaaaaaaaaaaaaaaaaa''
   \<and> isNsecToken ''nsec1qqqqqqqqqqqqqqqqqqqqqqqqqqqqqqqqqqqqqqqqqqqqqqqqqqqqqqqqqq'' \<and> \<not> onlyPrefixCopies ''nsec1qqqqqqqqqqqqqqqqqqqqqqqqqqqqqqqqqqqqqqqqqqqqqqqqqqqqqqqqqq''
   \<and> \<not> containsNsec1 (''nsec1'' @ ''nsec1qqqqqqqqqqqqqqqqqqqqqqqqqqqqqqqqqqqqqqqqqqqqqqqqqqqqqqqqqq'')"
  using t1_token t1_not_copies t1_silent key_token key_not_copies key_hidden by blast

subsection \<open>Hashtags\<close>

lemmas scan_defs = FindAllString_def ReplaceAllString_def findAll.simps replaceAll.simps
  matchRe.simps decodeRune_ascii hashTagPattern_def parsignPattern_def stripPattern_def
  startOrSpace_def hashSigns_def inClass_def byte_def getNostrTag_def addTagName_def
  addTagValue_def

lemma setHashTags_world: "setHashTags ''hello #world'' tgs = tgs @ [[''t'', ''world'']]"
  by (simp add: setHashTags_def scan_defs)

lemma setHashTags_nostr: "setHashTags '' #nostr'' tgs = tgs @ [[''t'', ''nostr'']]"
  by (simp add: setHashTags_def scan_defs)

lemma exclude_before_hashtag: "excludeHashtagsParsign ''#foo#bar# #nostr'' = Inr '' #nostr''"
  by (simp add: excludeHashtagsParsign_def scan_defs)

text \<open>Without the exclusion, the extraction alone takes a tag from the paired form.\<close>

lemma setHashTags_paired_alone: "setHashTags ''#foo#bar#'' tgs = tgs @ [[''t'', ''foo'']]"
  by (simp add: setHashTags_def scan_defs)

lemma cls_Nil: "matchRe (Cls negated items) b [] = []"
  by (simp add: matchRe.simps)

lemma cls_ascii:
  "byte c < 128 \<Longrightarrow>
   matchRe (Cls negated items) b (c # cs) = (if inClass negated items (byte c) then [cs] else [])"
  by (simp add: matchRe.simps decodeRune_ascii)

lemma byte_hash: "(byte c = 35) = (c = CHR ''#'')"
proof -
  have "byte CHR ''#'' = 35" by (simp add: byte_def)
  then have "(byte c = 35) = (byte c = byte CHR ''#'')" by simp
  also have "\<dots> = (c = CHR ''#'')" by (rule byte_eq_iff)
  finally show ?thesis .
qed

lemma hash_plain: "plainChar c \<Longrightarrow> \<not> inClass False hashSigns (byte c)"
proof -
  assume p: "plainChar c"
  have h: "byte CHR ''#'' = 35" by (simp add: byte_def)
  from p show ?thesis
    by (auto simp: plainChar_def inClass_def hashSigns_def h byte_hash)
qed

lemma hash_class_plain: "plainChar c \<Longrightarrow> matchRe (Cls False hashSigns) b (c # cs) = []"
  by (simp add: cls_ascii hash_plain plainChar_def)

lemma space_class: "byte c < 128 \<Longrightarrow> inClass False [PerlSpace] (byte c) = spaceChar c"
  by (auto simp: inClass_def spaceChar_def)

lemma spaceChar_plain: "spaceChar c \<Longrightarrow> plainChar c"
  using byte_hash[of c] by (auto simp: spaceChar_def plainChar_def)

lemma startOrSpace_Nil: "matchRe startOrSpace b [] = (if b then [[]] else [])"
  by (simp add: startOrSpace_def matchRe.simps)

lemma startOrSpace_ascii:
  "byte c < 128 \<Longrightarrow>
   matchRe startOrSpace b (c # cs) = (if b then [c # cs] else []) @ (if spaceChar c then [cs] else [])"
  by (simp add: startOrSpace_def matchRe.simps(1,4) cls_ascii space_class)

lemma seq_hash_Nil: "matchRe (Seq (Cls False hashSigns) r) b [] = []"
  by (simp add: matchRe.simps(3) cls_Nil)

lemma seq_hash_plain: "plainChar c \<Longrightarrow> matchRe (Seq (Cls False hashSigns) r) b (c # cs) = []"
  by (simp add: matchRe.simps(3) hash_class_plain)

lemma no_match_ahead:
  assumes "noHashAhead s"
  shows "matchRe (Seq startOrSpace (Seq (Cls False hashSigns) r)) b s = []"
proof (cases s)
  case Nil
  then show ?thesis by (simp add: matchRe.simps(3)[of startOrSpace] startOrSpace_Nil seq_hash_Nil)
next
  case (Cons c cs)
  with assms have c: "plainChar c" by (cases cs) (simp_all add: noHashAhead_def)
  then have a: "byte c < 128" by (simp add: plainChar_def)
  have t: "matchRe (Seq (Cls False hashSigns) r) b' cs = []" for b'
  proof (cases cs)
    case Nil then show ?thesis by (simp add: seq_hash_Nil)
  next
    case (Cons d ds)
    with assms \<open>s = c # cs\<close> have "plainChar d" by (simp add: noHashAhead_def)
    then show ?thesis using Cons by (simp add: seq_hash_plain)
  qed
  show ?thesis unfolding Cons
    by (simp add: matchRe.simps(3)[of startOrSpace] startOrSpace_ascii[OF a] seq_hash_plain[OF c] t)
qed

lemma parsign_no_match: "noHashAhead s \<Longrightarrow> matchRe parsignPattern b s = []"
  unfolding parsignPattern_def by (rule no_match_ahead)

lemma hashTag_no_match: "noHashAhead s \<Longrightarrow> matchRe hashTagPattern b s = []"
  unfolding hashTagPattern_def by (rule no_match_ahead)

lemma plain_Cons: "plain (c # cs) = (plainChar c \<and> plain cs)"
  by (simp add: plain_def)

lemma plain_append: "plain (xs @ ys) = (plain xs \<and> plain ys)"
  by (simp add: plain_def)

lemma plain_noHashAhead: "plain s \<Longrightarrow> noHashAhead s"
  by (auto simp: noHashAhead_def plain_def split: list.splits)

lemma replaceAll_plain_prefix:
  "plain pre \<Longrightarrow> pre \<noteq> [] \<Longrightarrow> noHashAhead (last pre # x) \<Longrightarrow>
   replaceAll parsignPattern repl b adj (pre @ x) = pre @ replaceAll parsignPattern repl False False x"
proof (induction pre arbitrary: b adj)
  case Nil
  then show ?case by simp
next
  case (Cons c pre)
  then have c: "plainChar c" and p: "plain pre" by (simp_all add: plain_Cons)
  then have a: "byte c < 128" by (simp add: plainChar_def)
  have n: "noHashAhead (c # pre @ x)"
  proof (cases pre)
    case Nil
    with Cons.prems(3) show ?thesis by simp
  next
    case (Cons d ds)
    with p have "plainChar d" by (simp add: plain_Cons)
    with c Cons show ?thesis by (simp add: noHashAhead_def)
  qed
  have m: "matchRe parsignPattern b (c # pre @ x) = []" using n by (rule parsign_no_match)
  have u: "replaceAll parsignPattern repl b adj (c # pre @ x)
           = c # replaceAll parsignPattern repl False False (pre @ x)"
    by (subst replaceAll.simps) (simp add: m decodeRune_ascii[OF a])
  show ?case
  proof (cases "pre = []")
    case True
    with u show ?thesis by simp
  next
    case False
    with Cons.prems(3) have "noHashAhead (last pre # x)" by simp
    from Cons.IH[OF p False this] u show ?thesis by simp
  qed
qed

lemma replaceAll_plain: "plain v \<Longrightarrow> replaceAll parsignPattern repl b adj v = v"
proof (cases "v = []")
  case True
  have "matchRe parsignPattern b [] = []" by (rule parsign_no_match) (simp add: noHashAhead_def)
  with True show ?thesis by (subst replaceAll.simps) simp
next
  case False
  assume p: "plain v"
  then have l: "plainChar (last v)" using False by (simp add: plain_def list_all_iff)
  have e: "replaceAll parsignPattern repl False False [] = []"
  proof -
    have "matchRe parsignPattern False [] = []" by (rule parsign_no_match) (simp add: noHashAhead_def)
    then show ?thesis by (subst replaceAll.simps) simp
  qed
  have "noHashAhead (last v # [])" using l by (simp add: noHashAhead_def)
  from replaceAll_plain_prefix[OF p False this, of repl b adj] e show ?thesis by simp
qed

lemma findAll_plain: "plain s \<Longrightarrow> findAll hashTagPattern b adj s = []"
proof (induction s arbitrary: b adj)
  case Nil
  have "matchRe hashTagPattern b [] = []" by (rule hashTag_no_match) (simp add: noHashAhead_def)
  then show ?case by (subst findAll.simps) simp
next
  case (Cons c s)
  then have c: "plainChar c" and p: "plain s" by (simp_all add: plain_Cons)
  then have a: "byte c < 128" by (simp add: plainChar_def)
  have "matchRe hashTagPattern b (c # s) = []"
    using Cons.prems by (intro hashTag_no_match plain_noHashAhead)
  then show ?case using Cons.IH[OF p]
    by (subst findAll.simps) (simp add: decodeRune_ascii[OF a])
qed

lemma setHashTags_no_hash: "plain s \<Longrightarrow> setHashTags s tgs = tgs"
  by (simp add: setHashTags_def FindAllString_def findAll_plain)

lemma not_space_end: "spaceOrEnd v \<Longrightarrow> matchRe (Cls True [PerlSpace]) b v = []"
proof (cases v)
  case Nil
  then show ?thesis by (simp add: cls_Nil)
next
  case (Cons c cs)
  assume "spaceOrEnd v"
  with Cons have s: "spaceChar c" by (simp add: spaceOrEnd_def)
  then have a: "byte c < 128" by (auto simp: spaceChar_def)
  from s show ?thesis unfolding Cons
    by (auto simp: cls_ascii[OF a] inClass_def spaceChar_def)
qed

lemma star_end: "spaceOrEnd v \<Longrightarrow> matchRe (Star (Cls True [PerlSpace])) b v = [v]"
  by (simp add: matchRe.simps(5) not_space_end)

lemma hash_end: "spaceOrEnd v \<Longrightarrow> matchRe (Cls False hashSigns) b v = []"
proof (cases v)
  case Nil
  then show ?thesis by (simp add: cls_Nil)
next
  case (Cons c cs)
  assume "spaceOrEnd v"
  with Cons have "spaceChar c" by (simp add: spaceOrEnd_def)
  then have "plainChar c" by (rule spaceChar_plain)
  then show ?thesis unfolding Cons by (rule hash_class_plain)
qed

lemma hash_end':
  "spaceOrEnd v \<Longrightarrow> matchRe (Cls False [Single 35, Single 65119, Single 65283]) b v = []"
  using hash_end[of v b] by (simp add: hashSigns_def byte_def)

lemmas ascii_eval = cls_ascii inClass_def hashSigns_def byte_def

lemma token_match_start:
  assumes "spaceOrEnd v"
  shows "\<exists>alternatives. matchRe parsignPattern True (''#foo#bar#'' @ v) = v # alternatives"
  using assms
  by (simp add: parsignPattern_def startOrSpace_def matchRe.simps(1,3,4,5) ascii_eval
      star_end hash_end' not_space_end)

lemma token_match_space:
  assumes "spaceOrEnd v" "spaceChar sp"
  shows "\<exists>alternatives. matchRe parsignPattern b (sp # ''#foo#bar#'' @ v) = v # alternatives"
proof -
  from assms(2) have a: "byte sp < 128" by (auto simp: spaceChar_def)
  have h: "matchRe (Cls False [Single 35, Single 65119, Single 65283]) b' (sp # cs) = []" for b' cs
    using hash_class_plain[OF spaceChar_plain[OF assms(2)], of b' cs]
    by (simp add: hashSigns_def byte_def)
  have s: "matchRe (Cls False [PerlSpace]) b' (sp # cs) = [cs]" for b' cs
    using assms(2) by (simp add: cls_ascii[OF a] space_class[OF a])
  show ?thesis using assms(1)
    by (cases b)
       (simp_all add: parsignPattern_def startOrSpace_def matchRe.simps(1,3,4,5) h s ascii_eval
          star_end hash_end' not_space_end)
qed

lemma exclude_token_start:
  assumes "spaceOrEnd v" "plain v"
  shows "excludeHashtagsParsign (''#foo#bar#'' @ v) = Inr v"
proof -
  from token_match_start[OF assms(1)] obtain alts
    where m: "matchRe parsignPattern True (''#foo#bar#'' @ v) = v # alts" by blast
  have "replaceAll parsignPattern [] True False (''#foo#bar#'' @ v)
          = replaceAll parsignPattern [] False True v"
    using m by (subst replaceAll.simps) simp
  then show ?thesis
    by (simp add: excludeHashtagsParsign_def ReplaceAllString_def replaceAll_plain[OF assms(2)])
qed

lemma exclude_token_inside:
  assumes "plain pre" "spaceChar sp" "spaceOrEnd v" "plain v"
  shows "excludeHashtagsParsign (pre @ sp # ''#foo#bar#'' @ v) = Inr (pre @ v)"
proof -
  let ?x = "sp # ''#foo#bar#'' @ v"
  have t: "replaceAll parsignPattern [] b adj ?x = v" for b adj
  proof -
    from token_match_space[OF assms(3,2), of b] obtain alts
      where m: "matchRe parsignPattern b ?x = v # alts" by blast
    have "replaceAll parsignPattern [] b adj ?x = replaceAll parsignPattern [] False True v"
      using m by (subst replaceAll.simps) simp
    then show ?thesis by (simp add: replaceAll_plain[OF assms(4)])
  qed
  show ?thesis
  proof (cases "pre = []")
    case True
    then show ?thesis using t[of True False]
      by (simp add: excludeHashtagsParsign_def ReplaceAllString_def)
  next
    case False
    from assms(1) False have "plainChar (last pre)" by (simp add: plain_def list_all_iff)
    with spaceChar_plain[OF assms(2)] have "noHashAhead (last pre # ?x)"
      by (simp add: noHashAhead_def)
    from replaceAll_plain_prefix[OF assms(1) False this, of "[]" True False] t[of False False]
    show ?thesis by (simp add: excludeHashtagsParsign_def ReplaceAllString_def)
  qed
qed

text \<open>
  Claim C7. Hashtag extraction on \<^verbatim>\<open>hello #world\<close> adds exactly the tag \<^verbatim>\<open>["t","world"]\<close>.
  Paired-delimiter exclusion followed by extraction adds no tag for the token
  \<^verbatim>\<open>#foo#bar#\<close>: the exclusion deletes the token, with the white space before it, from
  every content in which it stands at the beginning or after white space, is followed
  by white space or by nothing, and the text around it has no hash sign; the extraction
  then finds nothing. When a hashtag follows the token, only that hashtag yields a tag.
\<close>

theorem hashtag_extraction_and_paired_exclusion:
  "setHashTags ''hello #world'' tgs = tgs @ [[''t'', ''world'']]
   \<and> (plain pre \<longrightarrow> spaceChar sp \<longrightarrow> spaceOrEnd v \<longrightarrow> plain v \<longrightarrow>
        excludeHashtagsParsign (pre @ sp # ''#foo#bar#'' @ v) = Inr (pre @ v)
        \<and> excludeThenSetHashTags (pre @ sp # ''#foo#bar#'' @ v) tgs = Inr tgs)
   \<and> (spaceOrEnd v \<longrightarrow> plain v \<longrightarrow>
        excludeHashtagsParsign (''#foo#bar#'' @ v) = Inr v
        \<and> excludeThenSetHashTags (''#foo#bar#'' @ v) tgs = Inr tgs)
   \<and> excludeThenSetHashTags ''#foo#bar# #nostr'' tgs = Inr (tgs @ [[''t'', ''nostr'']])"
proof -
  have 1: "plain pre \<longrightarrow> spaceChar sp \<longrightarrow> spaceOrEnd v \<longrightarrow> plain v \<longrightarrow>
        excludeHashtagsParsign (pre @ sp # ''#foo#bar#'' @ v) = Inr (pre @ v)
        \<and> excludeThenSetHashTags (pre @ sp # ''#foo#bar#'' @ v) tgs = Inr tgs"
  proof (intro impI)
    assume a: "plain pre" "spaceChar sp" "spaceOrEnd v" "plain v"
    from a have "plain (pre @ v)" by (simp add: plain_append)
    then have "setHashTags (pre @ v) tgs = tgs" by (rule setHashTags_no_hash)
    with exclude_token_inside[OF a]
    show "excludeHashtagsParsign (pre @ sp # ''#foo#bar#'' @ v) = Inr (pre @ v)
        \<and> excludeThenSetHashTags (pre @ sp # ''#foo#bar#'' @ v) tgs = Inr tgs"
      by (simp add: excludeThenSetHashTags_def)
  qed
  have 2: "spaceOrEnd v \<longrightarrow> plain v \<longrightarrow>
        excludeHashtagsParsign (''#foo#bar#'' @ v) = Inr v
        \<and> excludeThenSetHashTags (''#foo#bar#'' @ v) tgs = Inr tgs"
  proof (intro impI)
    assume a: "spaceOrEnd v" "plain v"
    from exclude_token_start[OF a] setHashTags_no_hash[OF a(2), of tgs]
    show "excludeHashtagsParsign (''#foo#bar#'' @ v) = Inr v
        \<and> excludeThenSetHashTags (''#foo#bar#'' @ v) tgs = Inr tgs"
      by (simp add: excludeThenSetHashTags_def)
  qed
  have 3: "excludeThenSetHashTags ''#foo#bar# #nostr'' tgs = Inr (tgs @ [[''t'', ''nostr'']])"
    by (simp add: excludeThenSetHashTags_def exclude_before_hashtag setHashTags_nostr)
  from 1 2 3 setHashTags_world[of tgs] show ?thesis by blast
qed

theorem hashtag_extraction_and_paired_exclusion_witness:
  "plain ''hello'' \<and> spaceChar CHR '' '' \<and> spaceOrEnd '' world'' \<and> plain '' world''
   \<and> excludeHashtagsParsign ''hello #foo#bar# world'' = Inr ''hello world''
   \<and> excludeThenSetHashTags ''hello #foo#bar# world'' [] = Inr []
   \<and> spaceOrEnd [] \<and> plain []
   \<and> excludeThenSetHashTags ''#foo#bar#'' [] = Inr []
   \<and> setHashTags ''hello #world'' [] = [[''t'', ''world'']]"
proof -
  have h: "plain ''hello''" "spaceChar CHR '' ''" "spaceOrEnd '' world''" "plain '' world''"
    "spaceOrEnd []" "plain []"
    by (simp_all add: plain_def plainChar_def spaceChar_def spaceOrEnd_def byte_def)
  from hashtag_extraction_and_paired_exclusion[of "[]" "''hello''" "CHR '' ''" "'' world''"]
    hashtag_extraction_and_paired_exclusion[of "[]" "[]" "CHR '' ''" "[]"] h
  show ?thesis by simp
qed

end
